theory Spec2Isabelle
  imports Main
begin

section \<open>Strings\<close>

text \<open>
  A Python \<open>str\<close> is a sequence of code points. The development reads an Isabelle
  \<open>char\<close> as the code point of the same number, so it covers texts whose characters
  lie below 256. On that range the character classes of Python are the ones written out
  here: \<open>str.isspace\<close> and the regular-expression class \<open>\s\<close> agree, and the only
  decimal digits (\<open>\d\<close>) are \<open>0\<close> to \<open>9\<close>.
\<close>

definition isspace :: "char \<Rightarrow> bool" where
  "isspace c \<longleftrightarrow> c \<in> set [CHR 0x09, CHR 0x0A, CHR 0x0B, CHR 0x0C, CHR 0x0D,
      CHR 0x1C, CHR 0x1D, CHR 0x1E, CHR 0x1F, CHR 0x20, CHR 0x85, CHR 0xA0]"

definition isdigit :: "char \<Rightarrow> bool" where
  "isdigit c \<longleftrightarrow> c \<in> set ''0123456789''"

text \<open>\<open>s.strip()\<close>: leading and trailing whitespace removed.\<close>

definition strip :: "string \<Rightarrow> string" where
  "strip s = rev (dropWhile isspace (rev (dropWhile isspace s)))"

definition upper_letters :: string where
  "upper_letters = ''ABCDEFGHIJKLMNOPQRSTUVWXYZ'' @
     [CHR 0xC0, CHR 0xC1, CHR 0xC2, CHR 0xC3, CHR 0xC4, CHR 0xC5, CHR 0xC6, CHR 0xC7,
      CHR 0xC8, CHR 0xC9, CHR 0xCA, CHR 0xCB, CHR 0xCC, CHR 0xCD, CHR 0xCE, CHR 0xCF,
      CHR 0xD0, CHR 0xD1, CHR 0xD2, CHR 0xD3, CHR 0xD4, CHR 0xD5, CHR 0xD6,
      CHR 0xD8, CHR 0xD9, CHR 0xDA, CHR 0xDB, CHR 0xDC, CHR 0xDD, CHR 0xDE]"

definition lower_letters :: string where
  "lower_letters = ''abcdefghijklmnopqrstuvwxyz'' @
     [CHR 0xE0, CHR 0xE1, CHR 0xE2, CHR 0xE3, CHR 0xE4, CHR 0xE5, CHR 0xE6, CHR 0xE7,
      CHR 0xE8, CHR 0xE9, CHR 0xEA, CHR 0xEB, CHR 0xEC, CHR 0xED, CHR 0xEE, CHR 0xEF,
      CHR 0xF0, CHR 0xF1, CHR 0xF2, CHR 0xF3, CHR 0xF4, CHR 0xF5, CHR 0xF6,
      CHR 0xF8, CHR 0xF9, CHR 0xFA, CHR 0xFB, CHR 0xFC, CHR 0xFD, CHR 0xFE]"

definition lower_char :: "char \<Rightarrow> char" where
  "lower_char c = (case map_of (zip upper_letters lower_letters) c of
                     Some d \<Rightarrow> d | None \<Rightarrow> c)"

text \<open>
  Three characters below 256 have an upper case outside that range or longer than one
  character (\<open>0xB5\<close>, \<open>0xDF\<close> which becomes \<open>SS\<close>, and \<open>0xFF\<close>); they are
  left as they are. None of them produces a letter of the words searched for in a header
  row, so the containment tests below are the ones of the code.
\<close>

definition upper_char :: "char \<Rightarrow> char" where
  "upper_char c = (case map_of (zip lower_letters upper_letters) c of
                     Some d \<Rightarrow> d | None \<Rightarrow> c)"

definition lower :: "string \<Rightarrow> string" where
  "lower s = map lower_char s"

definition upper :: "string \<Rightarrow> string" where
  "upper s = map upper_char s"

text \<open>\<open>sep.join(xs)\<close>.\<close>

fun join :: "string \<Rightarrow> string list \<Rightarrow> string" where
  "join sep [] = []"
| "join sep [x] = x"
| "join sep (x # y # ys) = x @ sep @ join sep (y # ys)"

text \<open>\<open>sub in s\<close> on strings: \<open>sub\<close> occurs in \<open>s\<close> as a contiguous piece.\<close>

definition startswith :: "string \<Rightarrow> string \<Rightarrow> bool" where
  "startswith s sub \<longleftrightarrow> take (length sub) s = sub"

fun contains :: "string \<Rightarrow> string \<Rightarrow> bool" where
  "contains [] sub = (sub = [])"
| "contains (c # cs) sub = (startswith (c # cs) sub \<or> contains cs sub)"

text \<open>\<open>re.search(r'\d', s)\<close> as a truth value.\<close>

definition has_digit :: "string \<Rightarrow> bool" where
  "has_digit s \<longleftrightarrow> (\<exists>c \<in> set s. isdigit c)"

section \<open>Tables, records and collaborators\<close>

text \<open>
  A table of the document reader is a list of rows, a row a list of cells, a cell a
  string or \<open>None\<close>. A prayer-time dictionary has seven fixed keys and is a record.
\<close>

type_synonym cell = "string option"
type_synonym row = "cell list"
type_synonym table = "row list"

record prayer =
  date :: string
  fajr :: string
  sunrise :: string
  dhuhr :: string
  asr :: string
  maghrib :: string
  isha :: string

text \<open>
  Exceptions are values. \<open>Raised\<close> stands for any exception (a subclass of
  \<open>Exception\<close>) that a collaborator raises.
\<close>

datatype exn = IndexError | ValueError | Raised

definition bindE :: "exn + 'a \<Rightarrow> ('a \<Rightarrow> exn + 'b) \<Rightarrow> exn + 'b" where
  "bindE m f = (case m of Inl e \<Rightarrow> Inl e | Inr x \<Rightarrow> f x)"

text \<open>
  \<open>parse_date\<close> and \<open>clean_time\<close> are imported from modules that are not part of the
  sources at hand; they are parameters of the table path. Each returns or raises;
  \<open>parse_date\<close> returns a string or \<open>None\<close>.
\<close>

type_synonym date_parser = "string \<Rightarrow> string \<Rightarrow> exn + string option"
type_synonym time_cleaner = "string \<Rightarrow> exn + string"

text \<open>\<open>row[i]\<close> raises \<open>IndexError\<close> out of range.\<close>

definition index :: "'a list \<Rightarrow> nat \<Rightarrow> exn + 'a" where
  "index xs i = (if i < length xs then Inr (xs ! i) else Inl IndexError)"

text \<open>Truth value of a cell: \<open>None\<close> and the empty string are false.\<close>

definition truthy :: "string option \<Rightarrow> bool" where
  "truthy c \<longleftrightarrow> (case c of None \<Rightarrow> False | Some s \<Rightarrow> s \<noteq> [])"

text \<open>\<open>str(cell or "")\<close>.\<close>

definition str_or_empty :: "cell \<Rightarrow> string" where
  "str_or_empty c = (case c of None \<Rightarrow> [] | Some s \<Rightarrow> s)"

section \<open>The table path\<close>

text \<open>\<open>str(cell).upper() if cell else ''\<close>, the text of one header cell.\<close>

definition cell_upper :: "cell \<Rightarrow> string" where
  "cell_upper c = (if truthy c then upper (the c) else [])"

definition row_text :: "row \<Rightarrow> string" where
  "row_text r = join '' '' (map cell_upper r)"

text \<open>The test of \<open>_find_header_row\<close> on one row.\<close>

definition is_header_row :: "row \<Rightarrow> bool" where
  "is_header_row r \<longleftrightarrow> r \<noteq> [] \<and> 6 \<le> length r \<and>
     (contains (row_text r) ''FAJR'' \<or> contains (row_text r) ''DATE'') \<and>
     contains (row_text r) ''MAGHRIB''"

text \<open>The loop of \<open>_find_header_row\<close> over \<open>enumerate(table)\<close>, from index \<open>i\<close>.\<close>

fun find_header_from :: "nat \<Rightarrow> table \<Rightarrow> nat option" where
  "find_header_from i [] = None"
| "find_header_from i (r # rs) =
     (if is_header_row r then Some i else find_header_from (Suc i) rs)"

definition find_header_row :: "table \<Rightarrow> nat option" where
  "find_header_row t = find_header_from 0 t"

text \<open>\<open>date_str\<close> of \<open>_parse_single_row\<close>: the stripped text of cell 0.\<close>

definition date_token :: "cell \<Rightarrow> string" where
  "date_token c = (if truthy c then strip (the c) else [])"

text \<open>
  The body of the \<open>try\<close> block of \<open>_parse_single_row\<close>. \<open>Inl\<close> is an exception
  raised inside the block, \<open>Inr None\<close> a \<open>return None\<close> or falling out of the block,
  \<open>Inr (Some p)\<close> the returned dictionary. The dictionary display evaluates its
  entries in order, so the first collaborator that raises ends the block.
\<close>

definition try_body :: "time_cleaner \<Rightarrow> date_parser \<Rightarrow> row \<Rightarrow> string \<Rightarrow> exn + prayer option" where
  "try_body clean_time parse_date r month =
     bindE (index r 0) (\<lambda>c0.
     let date_str = date_token c0 in
     if date_str = [] \<or> lower date_str \<in> set [''none'', ''null'', ''''] then Inr None
     else if \<not> has_digit date_str then Inr None
     else
       bindE (parse_date date_str month) (\<lambda>parsed_date.
       if \<not> truthy parsed_date then Inr None
       else
         bindE (index r 1) (\<lambda>c1. bindE (clean_time (str_or_empty c1)) (\<lambda>v_fajr.
         bindE (index r 2) (\<lambda>c2. bindE (clean_time (str_or_empty c2)) (\<lambda>v_sunrise.
         bindE (index r 3) (\<lambda>c3. bindE (clean_time (str_or_empty c3)) (\<lambda>v_dhuhr.
         bindE (index r 4) (\<lambda>c4. bindE (clean_time (str_or_empty c4)) (\<lambda>v_asr.
         bindE (index r 5) (\<lambda>c5. bindE (clean_time (str_or_empty c5)) (\<lambda>v_maghrib.
         bindE (if 6 < length r
                then bindE (index r 6) (\<lambda>c6. clean_time (str_or_empty c6))
                else Inr []) (\<lambda>v_isha.
         if v_fajr \<noteq> [] \<and> v_maghrib \<noteq> [] \<and> v_isha \<noteq> []
         then Inr (Some \<lparr>date = the parsed_date, fajr = v_fajr, sunrise = v_sunrise,
                          dhuhr = v_dhuhr, asr = v_asr, maghrib = v_maghrib,
                          isha = v_isha\<rparr>)
         else Inr None)))))))))))))"

text \<open>
  \<open>_parse_single_row\<close>: the length test, then the \<open>try\<close> block, whose
  \<open>except Exception: pass\<close> turns every exception into the final \<open>return None\<close>.
\<close>

definition parse_single_row :: "time_cleaner \<Rightarrow> date_parser \<Rightarrow> row \<Rightarrow> string \<Rightarrow> prayer option" where
  "parse_single_row clean_time parse_date r month =
     (if r = [] \<or> length r < 6 then None
      else case try_body clean_time parse_date r month of
             Inl e \<Rightarrow> None
           | Inr res \<Rightarrow> res)"

text \<open>The loop of \<open>parse_table_rows\<close> over the data rows, appending to \<open>prayer_times\<close>.\<close>

fun parse_rows_loop :: "time_cleaner \<Rightarrow> date_parser \<Rightarrow> string \<Rightarrow> row list \<Rightarrow> prayer list \<Rightarrow> prayer list" where
  "parse_rows_loop clean_time parse_date month [] prayer_times = prayer_times"
| "parse_rows_loop clean_time parse_date month (r # rs) prayer_times =
     (case parse_single_row clean_time parse_date r month of
        None \<Rightarrow> parse_rows_loop clean_time parse_date month rs prayer_times
      | Some prayer_data \<Rightarrow>
          parse_rows_loop clean_time parse_date month rs (prayer_times @ [prayer_data]))"

definition parse_table_rows :: "time_cleaner \<Rightarrow> date_parser \<Rightarrow> table \<Rightarrow> string \<Rightarrow> prayer list" where
  "parse_table_rows clean_time parse_date t month =
     (if t = [] \<or> length t < 2 then []
      else case find_header_row t of
             None \<Rightarrow> []
           | Some header_row_idx \<Rightarrow>
               parse_rows_loop clean_time parse_date month (drop (header_row_idx + 1) t) [])"

section \<open>A backtracking matcher for the fallback pattern\<close>

text \<open>
  The constructs the pattern of \<open>extract_from_text_pattern\<close> is written with. An atom
  matches one character; \<open>Lit\<close> is a literal character, \<open>Digit\<close> is \<open>\d\<close>,
  \<open>Space\<close> is \<open>\s\<close> and \<open>Set\<close> is a bracketed set. \<open>Rep m n a\<close> is the greedy
  repetition \<open>a{m,n}\<close>, without upper bound when \<open>n\<close> is \<open>None\<close>; \<open>Opt\<close> is the
  greedy \<open>?\<close>, \<open>Grp i\<close> the \<open>i\<close>-th capturing group.
\<close>

datatype atom = Lit char | Digit | Space | Set string

datatype regex =
    Eps
  | Atom atom
  | Rep nat "nat option" atom
  | Seq regex regex
  | Alt regex regex
  | Opt regex
  | Grp nat regex

text \<open>
  The pattern is compiled with \<open>re.IGNORECASE\<close>: a literal and a member of a set match
  a character that agrees with them up to case.
\<close>

fun atom_ok :: "atom \<Rightarrow> char \<Rightarrow> bool" where
  "atom_ok (Lit a) c \<longleftrightarrow> lower_char c = lower_char a"
| "atom_ok Digit c \<longleftrightarrow> isdigit c"
| "atom_ok Space c \<longleftrightarrow> isspace c"
| "atom_ok (Set cs) c \<longleftrightarrow> lower_char c \<in> set (map lower_char cs)"

text \<open>
  A state of the matcher is the text not yet consumed and the groups captured so far
  (the latest capture of a group first). \<open>rmatch r st\<close> lists every way \<open>r\<close> matches
  at \<open>st\<close>, in the order in which a backtracking matcher tries them: a greedy
  repetition longest first, the left branch of an alternation before the right one, an
  optional part taken before it is skipped. What the matcher finds is the head of the
  list.
\<close>

type_synonym caps = "(nat \<times> string) list"
type_synonym mstate = "string \<times> caps"

fun rmatch :: "regex \<Rightarrow> mstate \<Rightarrow> mstate list" where
  "rmatch Eps st = [st]"
| "rmatch (Atom a) (s, g) =
     (case s of [] \<Rightarrow> [] | c # cs \<Rightarrow> if atom_ok a c then [(cs, g)] else [])"
| "rmatch (Rep m n a) (s, g) =
     (let avail = length (takeWhile (atom_ok a) s);
          most = (case n of None \<Rightarrow> avail | Some j \<Rightarrow> min j avail)
      in map (\<lambda>i. (drop i s, g)) (rev [m..<Suc most]))"
| "rmatch (Seq r1 r2) st = concat (map (rmatch r2) (rmatch r1 st))"
| "rmatch (Alt r1 r2) st = rmatch r1 st @ rmatch r2 st"
| "rmatch (Opt r) st = rmatch r st @ [st]"
| "rmatch (Grp i r) (s, g) =
     map (\<lambda>(s', g'). (s', (i, take (length s - length s') s) # g')) (rmatch r (s, g))"

definition seqs :: "regex list \<Rightarrow> regex" where
  "seqs rs = foldr Seq rs Eps"

fun alts :: "regex list \<Rightarrow> regex" where
  "alts [] = Eps"
| "alts [r] = r"
| "alts (r # rs) = Alt r (alts rs)"

definition word :: "string \<Rightarrow> regex" where
  "word w = seqs (map (\<lambda>c. Atom (Lit c)) w)"

text \<open>\<open>(Jan|Feb|Mar|Apr|May|Jun|Jul|Aug|Sep|Oct|Nov|Dec)\<close> without its parentheses.\<close>

definition month_abbrev :: regex where
  "month_abbrev = alts (map word [''Jan'', ''Feb'', ''Mar'', ''Apr'', ''May'', ''Jun'',
                                  ''Jul'', ''Aug'', ''Sep'', ''Oct'', ''Nov'', ''Dec''])"

text \<open>\<open>(\d{1,2}:\d{2}\s*[APap][Mm]?)\<close> as group \<open>i\<close>.\<close>

definition time_token :: "nat \<Rightarrow> regex" where
  "time_token i = Grp i (seqs [Rep 1 (Some 2) Digit, Atom (Lit (CHR '':'')),
                               Rep 2 (Some 2) Digit, Rep 0 None Space,
                               Atom (Set ''APap''), Opt (Atom (Set ''Mm''))])"

definition one_or_more_space :: regex where
  "one_or_more_space = Rep 1 None Space"

definition day_marker :: regex where
  "day_marker =
     Alt (seqs [Grp 1 (Rep 1 (Some 2) Digit), Atom (Lit (CHR ''-'')), Grp 2 month_abbrev])
         (seqs [Grp 3 month_abbrev, Atom (Lit (CHR ''-'')), Grp 4 (Rep 1 (Some 2) Digit)])"

definition pattern :: regex where
  "pattern = seqs [day_marker, one_or_more_space,
                   time_token 5, one_or_more_space,
                   time_token 6, one_or_more_space,
                   time_token 7, one_or_more_space,
                   time_token 8,
                   Opt (Seq one_or_more_space (time_token 9)),
                   Opt (Seq one_or_more_space (time_token 10))]"

text \<open>
  The scan of \<open>re.findall\<close>: at each position the pattern is tried; a match is recorded
  with its span and the scan goes on where the match ended, otherwise it moves one
  character to the right. A match of no character, after which the scan has to move on
  by itself, does not occur with this pattern.
\<close>

function scan :: "regex \<Rightarrow> nat \<Rightarrow> string \<Rightarrow> (nat \<times> nat \<times> caps) list" where
  "scan r pos s =
     (case rmatch r (s, []) of
        [] \<Rightarrow> (case s of [] \<Rightarrow> [] | c # cs \<Rightarrow> scan r (Suc pos) cs)
      | (s', g) # others \<Rightarrow>
          if length s' < length s
          then (pos, pos + (length s - length s'), g) # scan r (pos + (length s - length s')) s'
          else (pos, pos, g) # (case s of [] \<Rightarrow> [] | c # cs \<Rightarrow> scan r (Suc pos) cs))"
  by pat_completeness auto
termination
  by (relation "measure (\<lambda>(r, pos, s). length s)") auto

text \<open>The text of group \<open>i\<close>; a group that took no part in the match gives \<open>''\<close>.\<close>

definition group :: "caps \<Rightarrow> nat \<Rightarrow> string" where
  "group g i = (case map_of g i of None \<Rightarrow> [] | Some t \<Rightarrow> t)"

type_synonym groups10 =
  "string \<times> string \<times> string \<times> string \<times> string \<times> string \<times> string \<times> string \<times> string \<times> string"

definition groups :: "caps \<Rightarrow> groups10" where
  "groups g = (group g 1, group g 2, group g 3, group g 4, group g 5,
               group g 6, group g 7, group g 8, group g 9, group g 10)"

text \<open>\<open>re.findall(pattern, text, re.IGNORECASE)\<close>: one tuple of ten groups per match.\<close>

definition findall :: "string \<Rightarrow> groups10 list" where
  "findall text = map (\<lambda>(b, e, g). groups g) (scan pattern 0 text)"

section \<open>The fallback extractor\<close>

definition digit_val :: "char \<Rightarrow> nat" where
  "digit_val c = length (takeWhile (\<lambda>d. d \<noteq> c) ''0123456789'')"

text \<open>
  \<open>int(s)\<close> on a string of decimal digits; any other string is answered with
  \<open>ValueError\<close>. (Python also accepts a sign, surrounding whitespace and single
  underscores between digits; the strings converted here are shown to be one or two
  digits.)
\<close>

definition py_int :: "string \<Rightarrow> exn + nat" where
  "py_int s = (if s \<noteq> [] \<and> (\<forall>c \<in> set s. isdigit c)
               then Inr (foldl (\<lambda>n c. 10 * n + digit_val c) 0 s)
               else Inl ValueError)"

text \<open>\<open>str(n)\<close> and the format \<open>{n:02d}\<close> for a natural number.\<close>

function decimal :: "nat \<Rightarrow> string" where
  "decimal n = (if n < 10 then [''0123456789'' ! n]
                else decimal (n div 10) @ [''0123456789'' ! (n mod 10)])"
  by pat_completeness auto
termination
  by (relation "measure id") auto

definition fmt02d :: "nat \<Rightarrow> string" where
  "fmt02d n = replicate (2 - length (decimal n)) (CHR ''0'') @ decimal n"

text \<open>The body of the loop over the matches: the dictionary built from one match.\<close>

definition match_record :: "string \<Rightarrow> groups10 \<Rightarrow> exn + prayer" where
  "match_record month m =
     (case m of (day1, u1, u2, day2, v_fajr, v_sunrise, v_dhuhr, v_asr, v_maghrib, v_isha) \<Rightarrow>
        let day = (if day1 \<noteq> [] then day1 else day2) in
        bindE (py_int day) (\<lambda>n.
        Inr \<lparr>date = month @ ''-'' @ fmt02d n,
             fajr = strip v_fajr, sunrise = strip v_sunrise,
             dhuhr = strip v_dhuhr, asr = strip v_asr,
             maghrib = (if v_maghrib \<noteq> [] then strip v_maghrib else []),
             isha = (if v_isha \<noteq> [] then strip v_isha else [])\<rparr>))"

fun extract_loop :: "string \<Rightarrow> groups10 list \<Rightarrow> prayer list \<Rightarrow> exn + prayer list" where
  "extract_loop month [] prayer_times = Inr prayer_times"
| "extract_loop month (m # ms) prayer_times =
     bindE (match_record month m) (\<lambda>prayer_data.
       extract_loop month ms (prayer_times @ [prayer_data]))"

definition extract_from_text_pattern :: "string \<Rightarrow> string \<Rightarrow> exn + prayer list" where
  "extract_from_text_pattern text month = extract_loop month (findall text) []"

section \<open>Notions used in the proofs\<close>

text \<open>The numbers of the capturing groups of a pattern.\<close>

fun grps :: "regex \<Rightarrow> nat set" where
  "grps Eps = {}"
| "grps (Atom a) = {}"
| "grps (Rep m n a) = {}"
| "grps (Seq r1 r2) = grps r1 \<union> grps r2"
| "grps (Alt r1 r2) = grps r1 \<union> grps r2"
| "grps (Opt r) = grps r"
| "grps (Grp i r) = insert i (grps r)"

text \<open>A pattern with its capturing groups removed.\<close>

fun erase :: "regex \<Rightarrow> regex" where
  "erase Eps = Eps"
| "erase (Atom a) = Atom a"
| "erase (Rep m n a) = Rep m n a"
| "erase (Seq r1 r2) = Seq (erase r1) (erase r2)"
| "erase (Alt r1 r2) = Alt (erase r1) (erase r2)"
| "erase (Opt r) = Opt (erase r)"
| "erase (Grp i r) = erase r"

text \<open>\<open>v\<close> is a contiguous piece of \<open>u\<close>.\<close>

definition piece_of :: "string \<Rightarrow> string \<Rightarrow> bool" where
  "piece_of v u \<longleftrightarrow> (\<exists>a b. u = a @ v @ b)"

text \<open>A pattern that consumes at least one character whenever it matches.\<close>

definition consuming :: "regex \<Rightarrow> bool" where
  "consuming r \<longleftrightarrow> (\<forall>s s' g. (s', g) \<in> set (rmatch r (s, [])) \<longrightarrow> length s' < length s)"

text \<open>The strings of \<open>\d{1,2}\<close>: one or two decimal digits.\<close>

definition day_shape :: "string \<Rightarrow> bool" where
  "day_shape d \<longleftrightarrow> d \<noteq> [] \<and> length d \<le> 2 \<and> (\<forall>c \<in> set d. isdigit c)"

text \<open>
  The strings of the time-token pattern \<open>\d{1,2}:\d{2}\s*[APap][Mm]?\<close>: one or two
  digits, a colon, two digits, any whitespace, one of the letters \<open>A\<close>, \<open>P\<close>,
  \<open>a\<close>, \<open>p\<close>, and then possibly \<open>M\<close> or \<open>m\<close>.
\<close>

definition time_shape :: "string \<Rightarrow> bool" where
  "time_shape u \<longleftrightarrow>
     (\<exists>d1 d2 w a m. u = d1 @ [CHR '':''] @ d2 @ w @ [a] @ m \<and>
        d1 \<noteq> [] \<and> length d1 \<le> 2 \<and> (\<forall>c \<in> set d1. isdigit c) \<and>
        length d2 = 2 \<and> (\<forall>c \<in> set d2. isdigit c) \<and>
        (\<forall>c \<in> set w. isspace c) \<and>
        a \<in> set ''APap'' \<and> (m = [] \<or> m = ''M'' \<or> m = ''m''))"

text \<open>
  The captures a match of the whole pattern leaves: those of the day marker at the
  bottom, then groups 5 to 8, then what the two optional tokens added.
\<close>

definition opt_ok :: "caps \<Rightarrow> bool" where
  "opt_ok opt \<longleftrightarrow> opt = [] \<or> (\<exists>t9. time_shape t9 \<and> opt = [(9, t9)]) \<or>
     (\<exists>t10. time_shape t10 \<and> opt = [(10, t10)]) \<or>
     (\<exists>t9 t10. time_shape t9 \<and> time_shape t10 \<and> opt = [(10, t10), (9, t9)])"

definition base_ok :: "caps \<Rightarrow> bool" where
  "base_ok base \<longleftrightarrow>
     (\<exists>d mon. day_shape d \<and> (base = [(2, mon), (1, d)] \<or> base = [(4, d), (3, mon)]))"

definition caps_ok :: "caps \<Rightarrow> bool" where
  "caps_ok g \<longleftrightarrow>
     (\<exists>opt t8 t7 t6 t5 base. g = opt @ [(8, t8), (7, t7), (6, t6), (5, t5)] @ base \<and>
        opt_ok opt \<and> time_shape t8 \<and> time_shape t7 \<and> time_shape t6 \<and> time_shape t5 \<and>
        base_ok base)"

text \<open>A string of one or two digits padded with a zero to two digits.\<close>

definition pad2 :: "string \<Rightarrow> string" where
  "pad2 d = (if length d = 1 then CHR ''0'' # d else d)"

text \<open>The dictionary built from the captures of one match, with the fields read off.\<close>

definition record_of :: "string \<Rightarrow> caps \<Rightarrow> prayer" where
  "record_of month g =
     \<lparr>date = month @ ''-'' @ pad2 (if group g 1 \<noteq> [] then group g 1 else group g 4),
      fajr = group g 5, sunrise = group g 6, dhuhr = group g 7, asr = group g 8,
      maghrib = group g 9, isha = group g 10\<rparr>"

section \<open>Properties of the table path\<close>

lemma startswith_iff: "startswith s sub \<longleftrightarrow> (\<exists>post. s = sub @ post)"
  unfolding startswith_def
  by (metis append_eq_conv_conj append_take_drop_id)

lemma contains_iff: "contains s sub \<longleftrightarrow> (\<exists>pre post. s = pre @ sub @ post)"
proof (induction s)
  case Nil
  show ?case by auto
next
  case (Cons c cs)
  show ?case
  proof
    assume "contains (c # cs) sub"
    then consider "startswith (c # cs) sub" | "contains cs sub" by auto
    then show "\<exists>pre post. c # cs = pre @ sub @ post"
    proof cases
      case 1
      then obtain post where "c # cs = sub @ post" by (auto simp: startswith_iff)
      then have "c # cs = [] @ sub @ post" by simp
      then show ?thesis by blast
    next
      case 2
      then obtain pre post where "cs = pre @ sub @ post" using Cons.IH by auto
      then have "c # cs = (c # pre) @ sub @ post" by simp
      then show ?thesis by blast
    qed
  next
    assume "\<exists>pre post. c # cs = pre @ sub @ post"
    then obtain pre post where eq: "c # cs = pre @ sub @ post" by blast
    show "contains (c # cs) sub"
    proof (cases pre)
      case Nil
      then have "startswith (c # cs) sub" using eq by (auto simp: startswith_iff)
      then show ?thesis by simp
    next
      case (Cons p ps)
      then have "cs = ps @ sub @ post" using eq by simp
      then have "contains cs sub" using Cons.IH by blast
      then show ?thesis by simp
    qed
  qed
qed

lemma parse_rows_loop_eq:
  "parse_rows_loop ct pd month rs acc =
     acc @ List.map_filter (\<lambda>r. parse_single_row ct pd r month) rs"
  by (induction rs arbitrary: acc) (auto simp: List.map_filter_simps split: option.splits)

lemma find_header_from_None:
  "find_header_from i t = None \<longleftrightarrow> (\<forall>r \<in> set t. \<not> is_header_row r)"
  by (induction t arbitrary: i) auto

lemma find_header_from_Some:
  "find_header_from i t = Some h \<Longrightarrow>
     i \<le> h \<and> h - i < length t \<and> is_header_row (t ! (h - i)) \<and>
     (\<forall>j < h - i. \<not> is_header_row (t ! j))"
proof (induction t arbitrary: i)
  case Nil
  then show ?case by simp
next
  case (Cons r rs)
  show ?case
  proof (cases "is_header_row r")
    case True
    with Cons.prems show ?thesis by simp
  next
    case False
    with Cons.prems have rec: "find_header_from (Suc i) rs = Some h" by simp
    from Cons.IH[OF rec] have ih: "Suc i \<le> h" "h - Suc i < length rs"
      "is_header_row (rs ! (h - Suc i))" "\<forall>j < h - Suc i. \<not> is_header_row (rs ! j)"
      by auto
    have hi: "h - i = Suc (h - Suc i)" using ih(1) by arith
    have "\<forall>j < h - i. \<not> is_header_row ((r # rs) ! j)"
    proof (intro allI impI)
      fix j assume "j < h - i"
      then show "\<not> is_header_row ((r # rs) ! j)"
        using False ih(4) hi by (cases j) auto
    qed
    then show ?thesis using ih hi by auto
  qed
qed

lemma find_header_row_Some:
  "find_header_row t = Some h \<Longrightarrow>
     h < length t \<and> is_header_row (t ! h) \<and> (\<forall>j < h. \<not> is_header_row (t ! j))"
  unfolding find_header_row_def using find_header_from_Some[of 0 t h] by simp

lemma find_header_row_None:
  "find_header_row t = None \<longleftrightarrow> (\<forall>r \<in> set t. \<not> is_header_row r)"
  unfolding find_header_row_def by (rule find_header_from_None)

lemma cell_upper_eq: "cell_upper c = upper (str_or_empty c)"
  by (cases c) (auto simp: cell_upper_def truthy_def str_or_empty_def upper_def)

lemma parse_table_rows_header:
  "find_header_row t = Some h \<Longrightarrow>
   parse_table_rows ct pd t month =
     (if length t < 2 then []
      else List.map_filter (\<lambda>r. parse_single_row ct pd r month) (drop (Suc h) t))"
  by (auto simp: parse_table_rows_def parse_rows_loop_eq)

lemma bindE_Inr_iff: "bindE m f = Inr y \<longleftrightarrow> (\<exists>x. m = Inr x \<and> f x = Inr y)"
  by (cases m) (auto simp: bindE_def)

lemma index_Inr_iff: "index xs i = Inr x \<longleftrightarrow> i < length xs \<and> x = xs ! i"
  by (auto simp: index_def)

lemma try_body_Some:
  assumes "try_body ct pd r month = Inr (Some p)"
  shows "6 < length r \<and>
         date_token (r ! 0) \<noteq> [] \<and> lower (date_token (r ! 0)) \<noteq> ''none'' \<and>
         lower (date_token (r ! 0)) \<noteq> ''null'' \<and> has_digit (date_token (r ! 0)) \<and>
         pd (date_token (r ! 0)) month = Inr (Some (date p)) \<and> date p \<noteq> [] \<and>
         ct (str_or_empty (r ! 1)) = Inr (fajr p) \<and>
         ct (str_or_empty (r ! 2)) = Inr (sunrise p) \<and>
         ct (str_or_empty (r ! 3)) = Inr (dhuhr p) \<and>
         ct (str_or_empty (r ! 4)) = Inr (asr p) \<and>
         ct (str_or_empty (r ! 5)) = Inr (maghrib p) \<and>
         ct (str_or_empty (r ! 6)) = Inr (isha p) \<and>
         fajr p \<noteq> [] \<and> maghrib p \<noteq> [] \<and> isha p \<noteq> []"
  using assms
  unfolding try_body_def Let_def
  by (auto simp: bindE_Inr_iff index_Inr_iff truthy_def split: if_splits option.splits)

lemma parse_single_row_Some:
  assumes "parse_single_row ct pd r month = Some p"
  shows "try_body ct pd r month = Inr (Some p)"
  using assms by (auto simp: parse_single_row_def split: if_splits sum.splits)

lemma parse_single_row_short: "length r < 6 \<Longrightarrow> parse_single_row ct pd r month = None"
  by (simp add: parse_single_row_def)


lemma date_token_empty_cell: "c = None \<or> c = Some [] \<Longrightarrow> date_token c = []"
  by (auto simp: date_token_def truthy_def)

lemma parse_table_rows_no_header:
  "find_header_row t = None \<Longrightarrow> parse_table_rows ct pd t month = []"
  by (simp add: parse_table_rows_def)

text \<open>
  Claim C1. A row yields a record only when the cleaned fajr, maghrib and isha values are
  all non-empty, and these are the values the record carries; hence every record that
  \<open>parse_table_rows\<close> returns has non-empty fajr, maghrib and isha fields.
\<close>

theorem mandatory_fields_nonempty:
  "(parse_single_row clean_time parse_date r month = Some p \<longrightarrow>
      clean_time (str_or_empty (r ! 1)) = Inr (fajr p) \<and> fajr p \<noteq> [] \<and>
      clean_time (str_or_empty (r ! 5)) = Inr (maghrib p) \<and> maghrib p \<noteq> [] \<and>
      clean_time (str_or_empty (r ! 6)) = Inr (isha p) \<and> isha p \<noteq> []) \<and>
   (\<forall>q \<in> set (parse_table_rows clean_time parse_date t month).
      fajr q \<noteq> [] \<and> maghrib q \<noteq> [] \<and> isha q \<noteq> [])"
proof
  show "parse_single_row clean_time parse_date r month = Some p \<longrightarrow>
      clean_time (str_or_empty (r ! 1)) = Inr (fajr p) \<and> fajr p \<noteq> [] \<and>
      clean_time (str_or_empty (r ! 5)) = Inr (maghrib p) \<and> maghrib p \<noteq> [] \<and>
      clean_time (str_or_empty (r ! 6)) = Inr (isha p) \<and> isha p \<noteq> []"
    using try_body_Some[OF parse_single_row_Some] by blast
next
  show "\<forall>q \<in> set (parse_table_rows clean_time parse_date t month).
      fajr q \<noteq> [] \<and> maghrib q \<noteq> [] \<and> isha q \<noteq> []"
  proof
    fix q assume q: "q \<in> set (parse_table_rows clean_time parse_date t month)"
    then obtain h where "find_header_row t = Some h"
      by (cases "find_header_row t") (auto simp: parse_table_rows_no_header)
    with q have "q \<in> set (List.map_filter (\<lambda>r. parse_single_row clean_time parse_date r month)
                 (drop (Suc h) t))"
      by (simp add: parse_table_rows_header split: if_splits)
    then obtain r' where "parse_single_row clean_time parse_date r' month = Some q"
      by (auto simp: List.map_filter_def)
    then show "fajr q \<noteq> [] \<and> maghrib q \<noteq> [] \<and> isha q \<noteq> []"
      using try_body_Some[OF parse_single_row_Some] by blast
  qed
qed

text \<open>
  The first data row of the sample table is accepted and its record is in the result; the
  second one, whose maghrib and isha cells are empty, is not.
\<close>

theorem mandatory_fields_nonempty_witness:
  "parse_single_row (\<lambda>s. Inr (strip s)) (\<lambda>d m. Inr (Some (m @ ''-0'' @ d)))
      [Some ''1'', Some ''5:00 AM'', Some ''6:15 AM'', Some ''12:30 PM'', Some ''3:45 PM'',
       Some ''6:30 PM'', Some ''7:45 PM''] ''03''
     = Some \<lparr>date = ''03-01'', fajr = ''5:00 AM'', sunrise = ''6:15 AM'', dhuhr = ''12:30 PM'',
             asr = ''3:45 PM'', maghrib = ''6:30 PM'', isha = ''7:45 PM''\<rparr> \<and>
   \<lparr>date = ''03-01'', fajr = ''5:00 AM'', sunrise = ''6:15 AM'', dhuhr = ''12:30 PM'',
     asr = ''3:45 PM'', maghrib = ''6:30 PM'', isha = ''7:45 PM''\<rparr>
     \<in> set (parse_table_rows (\<lambda>s. Inr (strip s)) (\<lambda>d m. Inr (Some (m @ ''-0'' @ d)))
         [[Some ''DATE'', Some ''FAJR'', Some ''SUNRISE'', Some ''DHUHR'', Some ''ASR'',
           Some ''MAGHRIB'', Some ''ISHA''],
          [Some ''1'', Some ''5:00 AM'', Some ''6:15 AM'', Some ''12:30 PM'', Some ''3:45 PM'',
           Some ''6:30 PM'', Some ''7:45 PM''],
          [Some ''2'', Some ''5:01 AM'', Some '''', Some ''12:31 PM'', Some ''3:46 PM'',
           Some '''', Some '''']] ''03'') \<and>
   fajr \<lparr>date = ''03-01'', fajr = ''5:00 AM'', sunrise = ''6:15 AM'', dhuhr = ''12:30 PM'',
     asr = ''3:45 PM'', maghrib = ''6:30 PM'', isha = ''7:45 PM''\<rparr> \<noteq> []"
proof -
  let ?ct = "(\<lambda>s. Inr (strip s)) :: time_cleaner"
  let ?pd = "(\<lambda>d m. Inr (Some (m @ ''-0'' @ d))) :: date_parser"
  let ?p = "\<lparr>date = ''03-01'', fajr = ''5:00 AM'', sunrise = ''6:15 AM'', dhuhr = ''12:30 PM'',
     asr = ''3:45 PM'', maghrib = ''6:30 PM'', isha = ''7:45 PM''\<rparr>"
  let ?r = "[Some ''1'', Some ''5:00 AM'', Some ''6:15 AM'', Some ''12:30 PM'', Some ''3:45 PM'',
       Some ''6:30 PM'', Some ''7:45 PM'']"
  let ?t = "[[Some ''DATE'', Some ''FAJR'', Some ''SUNRISE'', Some ''DHUHR'', Some ''ASR'',
           Some ''MAGHRIB'', Some ''ISHA''], ?r,
          [Some ''2'', Some ''5:01 AM'', Some '''', Some ''12:31 PM'', Some ''3:46 PM'',
           Some '''', Some '''']]"
  have a: "parse_single_row ?ct ?pd ?r ''03'' = Some ?p" by code_simp
  have b: "?p \<in> set (parse_table_rows ?ct ?pd ?t ''03'')" by code_simp
  from mandatory_fields_nonempty[of ?ct ?pd ?r "''03''" ?p ?t] a b
  show ?thesis by simp
qed

text \<open>
  Claim C2. A row qualifies as header when it has at least six cells and its upper-cased
  cell texts, joined by blanks, contain \<open>MAGHRIB\<close> and also \<open>FAJR\<close> or \<open>DATE\<close>.
  \<open>parse_table_rows\<close> returns nothing for a table that is empty, has fewer than two
  rows or has no qualifying row; otherwise the qualifying row of lowest index is the
  header, and the result is made of exactly the rows after it, each handed to the
  single-row parser.
\<close>

theorem header_row_selection:
  "(is_header_row r \<longleftrightarrow>
      6 \<le> length r \<and>
      contains (join '' '' (map (\<lambda>c. upper (str_or_empty c)) r)) ''MAGHRIB'' \<and>
      (contains (join '' '' (map (\<lambda>c. upper (str_or_empty c)) r)) ''FAJR'' \<or>
       contains (join '' '' (map (\<lambda>c. upper (str_or_empty c)) r)) ''DATE'')) \<and>
   (t = [] \<or> length t < 2 \<or> (\<forall>x \<in> set t. \<not> is_header_row x) \<longrightarrow>
      parse_table_rows clean_time parse_date t month = []) \<and>
   (2 \<le> length t \<and> (\<exists>x \<in> set t. is_header_row x) \<longrightarrow>
      (\<exists>h < length t. find_header_row t = Some h \<and> is_header_row (t ! h) \<and>
         (\<forall>j < h. \<not> is_header_row (t ! j)) \<and>
         parse_table_rows clean_time parse_date t month =
           List.map_filter (\<lambda>x. parse_single_row clean_time parse_date x month)
             (drop (Suc h) t)))"
proof (intro conjI)
  have eq: "cell_upper = (\<lambda>c. upper (str_or_empty c))"
    by (rule ext) (rule cell_upper_eq)
  show "is_header_row r \<longleftrightarrow>
      6 \<le> length r \<and>
      contains (join '' '' (map (\<lambda>c. upper (str_or_empty c)) r)) ''MAGHRIB'' \<and>
      (contains (join '' '' (map (\<lambda>c. upper (str_or_empty c)) r)) ''FAJR'' \<or>
       contains (join '' '' (map (\<lambda>c. upper (str_or_empty c)) r)) ''DATE'')"
    unfolding is_header_row_def row_text_def eq by auto
next
  show "t = [] \<or> length t < 2 \<or> (\<forall>x \<in> set t. \<not> is_header_row x) \<longrightarrow>
      parse_table_rows clean_time parse_date t month = []"
    using find_header_row_None[of t]
    by (auto simp: parse_table_rows_def)
next
  show "2 \<le> length t \<and> (\<exists>x \<in> set t. is_header_row x) \<longrightarrow>
      (\<exists>h < length t. find_header_row t = Some h \<and> is_header_row (t ! h) \<and>
         (\<forall>j < h. \<not> is_header_row (t ! j)) \<and>
         parse_table_rows clean_time parse_date t month =
           List.map_filter (\<lambda>x. parse_single_row clean_time parse_date x month)
             (drop (Suc h) t))"
  proof
    assume a: "2 \<le> length t \<and> (\<exists>x \<in> set t. is_header_row x)"
    then have "find_header_row t \<noteq> None" using find_header_row_None[of t] by blast
    then obtain h where h: "find_header_row t = Some h" by blast
    from find_header_row_Some[OF h] parse_table_rows_header[OF h, of clean_time parse_date month] a h
    show "\<exists>h < length t. find_header_row t = Some h \<and> is_header_row (t ! h) \<and>
         (\<forall>j < h. \<not> is_header_row (t ! j)) \<and>
         parse_table_rows clean_time parse_date t month =
           List.map_filter (\<lambda>x. parse_single_row clean_time parse_date x month)
             (drop (Suc h) t)"
      by auto
  qed
qed

text \<open>
  A table with a title row before the header: the header is found at index 1 (its cells
  are in mixed case) and the one row after it is parsed.
\<close>

theorem header_row_selection_witness:
  "2 \<le> length [[Some ''Prayer times'', None],
                 [Some ''Date'', Some ''Fajr'', Some ''Sunrise'', Some ''Luhr'', Some ''Asr'',
                  Some ''Maghrib'', Some ''Isha''],
                 [Some ''1'', Some ''5:00 AM'', Some ''6:15 AM'', Some ''12:30 PM'',
                  Some ''3:45 PM'', Some ''6:30 PM'', Some ''7:45 PM'']] \<and>
   is_header_row [Some ''Date'', Some ''Fajr'', Some ''Sunrise'', Some ''Luhr'', Some ''Asr'',
                  Some ''Maghrib'', Some ''Isha''] \<and>
   parse_table_rows (\<lambda>s. Inr (strip s)) (\<lambda>d m. Inr (Some (m @ ''-0'' @ d)))
                [[Some ''Prayer times'', None],
                 [Some ''Date'', Some ''Fajr'', Some ''Sunrise'', Some ''Luhr'', Some ''Asr'',
                  Some ''Maghrib'', Some ''Isha''],
                 [Some ''1'', Some ''5:00 AM'', Some ''6:15 AM'', Some ''12:30 PM'',
                  Some ''3:45 PM'', Some ''6:30 PM'', Some ''7:45 PM'']] ''03'' =
     List.map_filter (\<lambda>x. parse_single_row (\<lambda>s. Inr (strip s))
                            (\<lambda>d m. Inr (Some (m @ ''-0'' @ d))) x ''03'')
       [[Some ''1'', Some ''5:00 AM'', Some ''6:15 AM'', Some ''12:30 PM'',
         Some ''3:45 PM'', Some ''6:30 PM'', Some ''7:45 PM'']]"
proof -
  let ?ct = "(\<lambda>s. Inr (strip s)) :: time_cleaner"
  let ?pd = "(\<lambda>d m. Inr (Some (m @ ''-0'' @ d))) :: date_parser"
  let ?hdr = "[Some ''Date'', Some ''Fajr'', Some ''Sunrise'', Some ''Luhr'', Some ''Asr'',
               Some ''Maghrib'', Some ''Isha'']"
  let ?row = "[Some ''1'', Some ''5:00 AM'', Some ''6:15 AM'', Some ''12:30 PM'',
               Some ''3:45 PM'', Some ''6:30 PM'', Some ''7:45 PM'']"
  let ?t = "[[Some ''Prayer times'', None], ?hdr, ?row]"
  have len: "2 \<le> length ?t" by simp
  have hdr: "is_header_row ?hdr" by code_simp
  have idx: "find_header_row ?t = Some 1" by code_simp
  have ex: "\<exists>x \<in> set ?t. is_header_row x" using hdr by simp
  from header_row_selection[of ?hdr ?t ?ct ?pd "''03''"] len ex
  obtain h where "find_header_row ?t = Some h"
    and res: "parse_table_rows ?ct ?pd ?t ''03'' =
       List.map_filter (\<lambda>x. parse_single_row ?ct ?pd x ''03'') (drop (Suc h) ?t)"
    by blast
  with idx have "h = 1" by simp
  with res len hdr show ?thesis by simp
qed








text \<open>
  Claim C6. A row is rejected when it is empty or has fewer than six cells, when cell 0 is
  absent or empty or its stripped text is empty, is \<open>none\<close> or \<open>null\<close> up to case or
  has no digit, and when the date resolver returns \<open>None\<close> or the empty string or
  raises. A row that yields a record has passed all of these checks, and the date of the
  record is the one the resolver returned.
\<close>

theorem row_rejections:
  "(r = [] \<or> length r < 6 \<or> r ! 0 = None \<or> r ! 0 = Some [] \<or>
    date_token (r ! 0) = [] \<or>
    lower (date_token (r ! 0)) = ''none'' \<or> lower (date_token (r ! 0)) = ''null'' \<or>
    \<not> has_digit (date_token (r ! 0)) \<or>
    parse_date (date_token (r ! 0)) month = Inr None \<or>
    parse_date (date_token (r ! 0)) month = Inr (Some []) \<or>
    (\<exists>e. parse_date (date_token (r ! 0)) month = Inl e)
    \<longrightarrow> parse_single_row clean_time parse_date r month = None) \<and>
   (parse_single_row clean_time parse_date r month = Some p \<longrightarrow>
      6 \<le> length r \<and> date_token (r ! 0) \<noteq> [] \<and>
      lower (date_token (r ! 0)) \<noteq> ''none'' \<and> lower (date_token (r ! 0)) \<noteq> ''null'' \<and>
      has_digit (date_token (r ! 0)) \<and>
      parse_date (date_token (r ! 0)) month = Inr (Some (date p)) \<and> date p \<noteq> [])"
proof -
  have some: "6 \<le> length r \<and> date_token (r ! 0) \<noteq> [] \<and>
      lower (date_token (r ! 0)) \<noteq> ''none'' \<and> lower (date_token (r ! 0)) \<noteq> ''null'' \<and>
      has_digit (date_token (r ! 0)) \<and>
      parse_date (date_token (r ! 0)) month = Inr (Some (date q)) \<and> date q \<noteq> []"
    if "parse_single_row clean_time parse_date r month = Some q" for q
    using try_body_Some[OF parse_single_row_Some[OF that]] by simp
  have tok: "date_token (r ! 0) = []" if "r ! 0 = None \<or> r ! 0 = Some []"
    using that by (rule date_token_empty_cell)
  show ?thesis
  proof (intro conjI impI)
    assume rej: "r = [] \<or> length r < 6 \<or> r ! 0 = None \<or> r ! 0 = Some [] \<or>
      date_token (r ! 0) = [] \<or>
      lower (date_token (r ! 0)) = ''none'' \<or> lower (date_token (r ! 0)) = ''null'' \<or>
      \<not> has_digit (date_token (r ! 0)) \<or>
      parse_date (date_token (r ! 0)) month = Inr None \<or>
      parse_date (date_token (r ! 0)) month = Inr (Some []) \<or>
      (\<exists>e. parse_date (date_token (r ! 0)) month = Inl e)"
    show "parse_single_row clean_time parse_date r month = None"
    proof (rule ccontr)
      assume "parse_single_row clean_time parse_date r month \<noteq> None"
      then obtain q where q: "parse_single_row clean_time parse_date r month = Some q" by blast
      from some[OF q] rej tok show False by auto
    qed
  qed (use some in blast)+
qed


text \<open>
  A row whose date cell reads \<open>None\<close> between blanks is rejected; a row dated \<open>1\<close> is
  accepted, and its date token has a digit.
\<close>

theorem row_rejections_witness:
  "lower (date_token ([Some '' None '', Some ''5:00 AM'', Some ''6:15 AM'', Some ''12:30 PM'',
       Some ''3:45 PM'', Some ''6:30 PM'', Some ''7:45 PM''] ! 0)) = ''none'' \<and>
   parse_single_row (\<lambda>s. Inr (strip s)) (\<lambda>d m. Inr (Some (m @ ''-0'' @ d)))
     [Some '' None '', Some ''5:00 AM'', Some ''6:15 AM'', Some ''12:30 PM'',
       Some ''3:45 PM'', Some ''6:30 PM'', Some ''7:45 PM''] ''03'' = None \<and>
   parse_single_row (\<lambda>s. Inr (strip s)) (\<lambda>d m. Inr (Some (m @ ''-0'' @ d)))
     [Some '' 1 '', Some ''5:00 AM'', Some ''6:15 AM'', Some ''12:30 PM'',
       Some ''3:45 PM'', Some ''6:30 PM'', Some ''7:45 PM''] ''03'' =
     Some \<lparr>date = ''03-01'', fajr = ''5:00 AM'', sunrise = ''6:15 AM'', dhuhr = ''12:30 PM'',
             asr = ''3:45 PM'', maghrib = ''6:30 PM'', isha = ''7:45 PM''\<rparr> \<and>
   has_digit (date_token ([Some '' 1 '', Some ''5:00 AM'', Some ''6:15 AM'', Some ''12:30 PM'',
       Some ''3:45 PM'', Some ''6:30 PM'', Some ''7:45 PM''] ! 0))"
proof -
  let ?ct = "(\<lambda>s. Inr (strip s)) :: time_cleaner"
  let ?pd = "(\<lambda>d m. Inr (Some (m @ ''-0'' @ d))) :: date_parser"
  let ?bad = "[Some '' None '', Some ''5:00 AM'', Some ''6:15 AM'', Some ''12:30 PM'',
       Some ''3:45 PM'', Some ''6:30 PM'', Some ''7:45 PM'']"
  let ?good = "[Some '' 1 '', Some ''5:00 AM'', Some ''6:15 AM'', Some ''12:30 PM'',
       Some ''3:45 PM'', Some ''6:30 PM'', Some ''7:45 PM'']"
  let ?p = "\<lparr>date = ''03-01'', fajr = ''5:00 AM'', sunrise = ''6:15 AM'', dhuhr = ''12:30 PM'',
             asr = ''3:45 PM'', maghrib = ''6:30 PM'', isha = ''7:45 PM''\<rparr>"
  have a: "lower (date_token (?bad ! 0)) = ''none''" by code_simp
  have b: "parse_single_row ?ct ?pd ?good ''03'' = Some ?p" by code_simp
  from row_rejections[of ?bad ?pd "''03''" ?ct] a
  have c: "parse_single_row ?ct ?pd ?bad ''03'' = None" by blast
  from row_rejections[of ?good ?pd "''03''" ?ct ?p] b
  have d: "has_digit (date_token (?good ! 0))" by blast
  from a b c d show ?thesis by simp
qed

section \<open>Properties of the matcher and of the fallback extractor\<close>

lemma piece_of_refl: "piece_of u u"
  unfolding piece_of_def by (metis append_Nil append_Nil2)

lemma piece_of_append1: "piece_of v u \<Longrightarrow> piece_of v (u @ w)"
  unfolding piece_of_def by (metis append.assoc)

lemma piece_of_append2: "piece_of v u \<Longrightarrow> piece_of v (w @ u)"
  unfolding piece_of_def by (metis append.assoc)

lemma set_rmatch_Atom:
  "(s', g') \<in> set (rmatch (Atom a) (s, g)) \<longleftrightarrow> (\<exists>c. s = c # s' \<and> atom_ok a c \<and> g' = g)"
  by (cases s) auto

lemma set_rmatch_Seq:
  "x \<in> set (rmatch (Seq r1 r2) st) \<longleftrightarrow> (\<exists>mid \<in> set (rmatch r1 st). x \<in> set (rmatch r2 mid))"
  by auto

lemma set_rmatch_Rep:
  assumes "(s', g') \<in> set (rmatch (Rep m n a) (s, g))"
  shows "\<exists>u. s = u @ s' \<and> g' = g \<and> m \<le> length u \<and>
             (case n of None \<Rightarrow> True | Some j \<Rightarrow> length u \<le> j) \<and>
             (\<forall>c \<in> set u. atom_ok a c)"
proof -
  let ?avail = "length (takeWhile (atom_ok a) s)"
  let ?most = "case n of None \<Rightarrow> ?avail | Some j \<Rightarrow> min j ?avail"
  from assms obtain i where i: "m \<le> i" "i \<le> ?most" "s' = drop i s" "g' = g"
    by (auto simp: Let_def)
  have most: "?most \<le> ?avail" by (cases n) auto
  have av: "?avail \<le> length s" by (rule length_takeWhile_le)
  have tk: "take i s = take i (takeWhile (atom_ok a) s)"
  proof -
    have le: "i \<le> ?avail" using i(2) most by simp
    have "take i (takeWhile (atom_ok a) s @ dropWhile (atom_ok a) s) =
            take i (takeWhile (atom_ok a) s)"
      using le by (simp del: takeWhile_dropWhile_id)
    then show ?thesis by simp
  qed
  have all: "\<forall>c \<in> set (take i s). atom_ok a c"
    unfolding tk by (metis in_set_takeD set_takeWhileD)
  have len: "length (take i s) = i" using i(2) most av by simp
  have bound: "(case n of None \<Rightarrow> True | Some j \<Rightarrow> length (take i s) \<le> j)"
    using i(2) len by (cases n) auto
  have eq: "s = take i s @ s'" using i(3) by simp
  have "s = take i s @ s' \<and> g' = g \<and> m \<le> length (take i s) \<and>
        (case n of None \<Rightarrow> True | Some j \<Rightarrow> length (take i s) \<le> j) \<and>
        (\<forall>c \<in> set (take i s). atom_ok a c)"
    using eq i(1,4) all len bound by simp
  then show ?thesis by (rule exI[of _ "take i s"])
qed

lemma set_rmatch_Grp:
  "(s', g') \<in> set (rmatch (Grp i r) (s, g)) \<longleftrightarrow>
     (\<exists>g''. (s', g'') \<in> set (rmatch r (s, g)) \<and> g' = (i, take (length s - length s') s) # g'')"
  by auto

lemma rmatch_sound:
  "(s', g') \<in> set (rmatch r (s, g)) \<Longrightarrow>
     \<exists>u new. s = u @ s' \<and> g' = new @ g \<and> fst ` set new \<subseteq> grps r \<and>
             (\<forall>v \<in> snd ` set new. piece_of v u)"
proof (induction r arbitrary: s g s' g')
  case Eps
  then show ?case by auto
next
  case (Atom a)
  then obtain c where "s = c # s'" "g' = g" by (auto simp: set_rmatch_Atom)
  then have "s = [c] @ s' \<and> g' = [] @ g" by simp
  then show ?case by fastforce
next
  case (Rep m n a)
  from set_rmatch_Rep[OF Rep] obtain u where "s = u @ s'" "g' = [] @ g" by auto
  then show ?case by fastforce
next
  case (Seq r1 r2)
  from Seq.prems obtain s1 g1 where m1: "(s1, g1) \<in> set (rmatch r1 (s, g))"
    and m2: "(s', g') \<in> set (rmatch r2 (s1, g1))"
    by (auto simp: set_rmatch_Seq)
  from Seq.IH(1)[OF m1] obtain u1 n1 where 1: "s = u1 @ s1" "g1 = n1 @ g"
    "fst ` set n1 \<subseteq> grps r1" "\<forall>v \<in> snd ` set n1. piece_of v u1" by blast
  from Seq.IH(2)[OF m2] obtain u2 n2 where 2: "s1 = u2 @ s'" "g' = n2 @ g1"
    "fst ` set n2 \<subseteq> grps r2" "\<forall>v \<in> snd ` set n2. piece_of v u2" by blast
  have a: "s = (u1 @ u2) @ s'" using 1 2 by simp
  have b: "g' = (n2 @ n1) @ g" using 1 2 by simp
  have c: "fst ` set (n2 @ n1) \<subseteq> grps (Seq r1 r2)" using 1 2 by auto
  have d: "\<forall>v \<in> snd ` set (n2 @ n1). piece_of v (u1 @ u2)"
    using 1(4) 2(4) piece_of_append1 piece_of_append2 by auto
  from a b c d show ?case by blast
next
  case (Alt r1 r2)
  then consider "(s', g') \<in> set (rmatch r1 (s, g))" | "(s', g') \<in> set (rmatch r2 (s, g))"
    by auto
  then show ?case
  proof cases
    case 1
    from Alt.IH(1)[OF 1] show ?thesis by fastforce
  next
    case 2
    from Alt.IH(2)[OF 2] show ?thesis by fastforce
  qed
next
  case (Opt r)
  then consider "(s', g') \<in> set (rmatch r (s, g))" | "s' = s" "g' = g" by auto
  then show ?case
  proof cases
    case 1
    from Opt.IH[OF 1] show ?thesis by simp
  next
    case 2
    then have "s = [] @ s' \<and> g' = [] @ g" by simp
    then show ?thesis by fastforce
  qed
next
  case (Grp i r)
  from Grp.prems obtain g'' where m: "(s', g'') \<in> set (rmatch r (s, g))"
    and g': "g' = (i, take (length s - length s') s) # g''"
    by (auto simp: set_rmatch_Grp)
  from Grp.IH[OF m] obtain u new where 1: "s = u @ s'" "g'' = new @ g"
    "fst ` set new \<subseteq> grps r" "\<forall>v \<in> snd ` set new. piece_of v u" by blast
  have tk: "take (length s - length s') s = u" using 1(1) by simp
  have a: "g' = ((i, u) # new) @ g" using g' tk 1(2) by simp
  have b: "fst ` set ((i, u) # new) \<subseteq> grps (Grp i r)" using 1(3) by auto
  have c: "\<forall>v \<in> snd ` set ((i, u) # new). piece_of v u" using 1(4) piece_of_refl by auto
  from 1(1) a b c show ?case by blast
qed

lemma rmatch_Grp_captures:
  assumes "(s', g') \<in> set (rmatch (Grp i r) (s, g))" "grps r = {}"
  shows "\<exists>u. s = u @ s' \<and> g' = (i, u) # g \<and> (s', g) \<in> set (rmatch r (s, g))"
proof -
  from assms(1) obtain g'' where m: "(s', g'') \<in> set (rmatch r (s, g))"
    and g': "g' = (i, take (length s - length s') s) # g''"
    by (auto simp: set_rmatch_Grp)
  from rmatch_sound[OF m] assms(2) obtain u where "s = u @ s'" "g'' = g" by auto
  with m g' show ?thesis by auto
qed

lemma lower_char_eqD:
  "lower_char c = d \<Longrightarrow> c = d \<or> (c, d) \<in> set (zip upper_letters lower_letters)"
  by (auto simp: lower_char_def split: option.splits dest: map_of_SomeD)

lemma zip_a: "(c, CHR ''a'') \<in> set (zip upper_letters lower_letters) \<Longrightarrow> c = CHR ''A''"
  by (simp add: upper_letters_def lower_letters_def)

lemma zip_p: "(c, CHR ''p'') \<in> set (zip upper_letters lower_letters) \<Longrightarrow> c = CHR ''P''"
  by (simp add: upper_letters_def lower_letters_def)

lemma zip_m: "(c, CHR ''m'') \<in> set (zip upper_letters lower_letters) \<Longrightarrow> c = CHR ''M''"
  by (simp add: upper_letters_def lower_letters_def)

lemma zip_colon: "(c, CHR '':'') \<notin> set (zip upper_letters lower_letters)"
  by (simp add: upper_letters_def lower_letters_def)

lemma lower_char_consts:
  "lower_char (CHR ''A'') = CHR ''a''" "lower_char (CHR ''a'') = CHR ''a''"
  "lower_char (CHR ''P'') = CHR ''p''" "lower_char (CHR ''p'') = CHR ''p''"
  "lower_char (CHR ''M'') = CHR ''m''" "lower_char (CHR ''m'') = CHR ''m''"
  "lower_char (CHR '':'') = CHR '':''"
  by (simp_all add: lower_char_def upper_letters_def lower_letters_def)

lemma lower_char_a: "lower_char c = CHR ''a'' \<longleftrightarrow> c = CHR ''a'' \<or> c = CHR ''A''"
  using lower_char_eqD[of c "CHR ''a''"] zip_a[of c] lower_char_consts by blast

lemma lower_char_p: "lower_char c = CHR ''p'' \<longleftrightarrow> c = CHR ''p'' \<or> c = CHR ''P''"
  using lower_char_eqD[of c "CHR ''p''"] zip_p[of c] lower_char_consts by blast

lemma lower_char_m: "lower_char c = CHR ''m'' \<longleftrightarrow> c = CHR ''m'' \<or> c = CHR ''M''"
  using lower_char_eqD[of c "CHR ''m''"] zip_m[of c] lower_char_consts by blast

lemma lower_char_colon: "lower_char c = CHR '':'' \<longleftrightarrow> c = CHR '':''"
  using lower_char_eqD[of c "CHR '':''"] zip_colon[of c] lower_char_consts by blast

lemma atom_ok_AP: "atom_ok (Set ''APap'') c \<longleftrightarrow> c \<in> set ''APap''"
proof -
  have "atom_ok (Set ''APap'') c \<longleftrightarrow> lower_char c = CHR ''a'' \<or> lower_char c = CHR ''p''"
    by (simp add: lower_char_consts) blast
  then show ?thesis by (simp add: lower_char_a lower_char_p) blast
qed

lemma atom_ok_M: "atom_ok (Set ''Mm'') c \<longleftrightarrow> c = CHR ''M'' \<or> c = CHR ''m''"
proof -
  have "atom_ok (Set ''Mm'') c \<longleftrightarrow> lower_char c = CHR ''m''"
    by (simp add: lower_char_consts)
  then show ?thesis by (simp add: lower_char_m) blast
qed

lemma atom_ok_colon: "atom_ok (Lit (CHR '':'')) c \<longleftrightarrow> c = CHR '':''"
  by (simp add: lower_char_consts lower_char_colon)

lemma set_rmatch_Opt:
  "x \<in> set (rmatch (Opt r) st) \<longleftrightarrow> x \<in> set (rmatch r st) \<or> x = st"
  by auto

lemma seqs_Nil: "seqs [] = Eps"
  by (simp add: seqs_def)

lemma seqs_Cons: "seqs (r # rs) = Seq r (seqs rs)"
  by (simp add: seqs_def)

lemma rmatch_SeqE:
  assumes "x \<in> set (rmatch (Seq r1 r2) st)"
  obtains s1 g1 where "(s1, g1) \<in> set (rmatch r1 st)" "x \<in> set (rmatch r2 (s1, g1))"
  using assms by auto

lemma rmatch_seqsE:
  assumes "x \<in> set (rmatch (seqs (r # rs)) st)"
  obtains s1 g1 where "(s1, g1) \<in> set (rmatch r st)" "x \<in> set (rmatch (seqs rs) (s1, g1))"
  using assms unfolding seqs_Cons by (rule rmatch_SeqE)

lemma rmatch_seqs_Nil: "x \<in> set (rmatch (seqs []) st) \<longleftrightarrow> x = st"
  by (simp add: seqs_Nil)

lemma time_token_sound:
  assumes "(s', g') \<in> set (rmatch (time_token i) (s, g))"
  shows "\<exists>u. s = u @ s' \<and> g' = (i, u) # g \<and> time_shape u"
proof -
  let ?body = "seqs [Rep 1 (Some 2) Digit, Atom (Lit (CHR '':'')),
                     Rep 2 (Some 2) Digit, Rep 0 None Space,
                     Atom (Set ''APap''), Opt (Atom (Set ''Mm''))]"
  have ng: "grps ?body = {}" by (simp add: seqs_def)
  from assms have "(s', g') \<in> set (rmatch (Grp i ?body) (s, g))"
    by (simp only: time_token_def)
  from rmatch_Grp_captures[OF this ng] obtain u where u: "s = u @ s'" "g' = (i, u) # g"
    and b: "(s', g) \<in> set (rmatch ?body (s, g))" by blast
  from b obtain s1 g1 where 1: "(s1, g1) \<in> set (rmatch (Rep 1 (Some 2) Digit) (s, g))"
    and b1: "(s', g) \<in> set (rmatch (seqs [Atom (Lit (CHR '':'')),
                     Rep 2 (Some 2) Digit, Rep 0 None Space,
                     Atom (Set ''APap''), Opt (Atom (Set ''Mm''))]) (s1, g1))"
    by (rule rmatch_seqsE)
  from b1 obtain s2 g2 where 2: "(s2, g2) \<in> set (rmatch (Atom (Lit (CHR '':''))) (s1, g1))"
    and b2: "(s', g) \<in> set (rmatch (seqs [Rep 2 (Some 2) Digit, Rep 0 None Space,
                     Atom (Set ''APap''), Opt (Atom (Set ''Mm''))]) (s2, g2))"
    by (rule rmatch_seqsE)
  from b2 obtain s3 g3 where 3: "(s3, g3) \<in> set (rmatch (Rep 2 (Some 2) Digit) (s2, g2))"
    and b3: "(s', g) \<in> set (rmatch (seqs [Rep 0 None Space,
                     Atom (Set ''APap''), Opt (Atom (Set ''Mm''))]) (s3, g3))"
    by (rule rmatch_seqsE)
  from b3 obtain s4 g4 where 4: "(s4, g4) \<in> set (rmatch (Rep 0 None Space) (s3, g3))"
    and b4: "(s', g) \<in> set (rmatch (seqs [Atom (Set ''APap''), Opt (Atom (Set ''Mm''))]) (s4, g4))"
    by (rule rmatch_seqsE)
  from b4 obtain s5 g5 where 5: "(s5, g5) \<in> set (rmatch (Atom (Set ''APap'')) (s4, g4))"
    and b5: "(s', g) \<in> set (rmatch (seqs [Opt (Atom (Set ''Mm''))]) (s5, g5))"
    by (rule rmatch_seqsE)
  from b5 obtain s6 g6 where 6: "(s6, g6) \<in> set (rmatch (Opt (Atom (Set ''Mm''))) (s5, g5))"
    and b6: "(s', g) \<in> set (rmatch (seqs []) (s6, g6))"
    by (rule rmatch_seqsE)
  from b6 have s6: "s6 = s'" by (simp only: rmatch_seqs_Nil prod.inject)
  from set_rmatch_Rep[OF 1] obtain d1 where d1: "s = d1 @ s1" "1 \<le> length d1" "length d1 \<le> 2"
    "\<forall>c \<in> set d1. isdigit c" by auto
  from 2 have s1: "s1 = CHR '':'' # s2" unfolding set_rmatch_Atom atom_ok_colon by blast
  from set_rmatch_Rep[OF 3] obtain d2 where d2: "s2 = d2 @ s3" "length d2 = 2"
    "\<forall>c \<in> set d2. isdigit c" by auto
  from set_rmatch_Rep[OF 4] obtain w where w: "s3 = w @ s4" "\<forall>c \<in> set w. isspace c" by auto
  from 5 obtain a where a: "s4 = a # s5" "a \<in> set ''APap''"
    unfolding set_rmatch_Atom atom_ok_AP by blast
  from 6 s6 obtain m where m: "s5 = m @ s'" "m = [] \<or> m = ''M'' \<or> m = ''m''"
    unfolding set_rmatch_Opt set_rmatch_Atom atom_ok_M by auto
  have "u @ s' = (d1 @ [CHR '':''] @ d2 @ w @ [a] @ m) @ s'"
    using u(1) d1(1) s1 d2(1) w(1) a(1) m(1) by simp
  then have eq: "u = d1 @ [CHR '':''] @ d2 @ w @ [a] @ m" by (simp only: append_same_eq)
  have "d1 \<noteq> []" using d1(2) by auto
  with eq d1 d2 w a m have "time_shape u" unfolding time_shape_def by blast
  with u show ?thesis by blast
qed

lemma spaces_sound:
  assumes "(s', g') \<in> set (rmatch one_or_more_space (s, g))"
  shows "g' = g \<and> length s' < length s"
proof -
  from set_rmatch_Rep[OF assms[unfolded one_or_more_space_def]]
  obtain u where "s = u @ s'" "g' = g" "1 \<le> length u" by auto
  then show ?thesis by auto
qed

lemma spaced_token_sound:
  assumes "(s', g') \<in> set (rmatch (Seq one_or_more_space (time_token i)) (s, g))"
  shows "\<exists>u. g' = (i, u) # g \<and> time_shape u"
proof -
  from assms obtain s1 g1 where 1: "(s1, g1) \<in> set (rmatch one_or_more_space (s, g))"
    and 2: "(s', g') \<in> set (rmatch (time_token i) (s1, g1))"
    by (rule rmatch_SeqE)
  from spaces_sound[OF 1] have "g1 = g" by simp
  with time_token_sound[OF 2] show ?thesis by blast
qed

lemma opt_token_sound:
  assumes "(s', g') \<in> set (rmatch (Opt (Seq one_or_more_space (time_token i))) (s, g))"
  shows "g' = g \<or> (\<exists>u. g' = (i, u) # g \<and> time_shape u)"
proof -
  from assms consider "(s', g') = (s, g)"
    | "(s', g') \<in> set (rmatch (Seq one_or_more_space (time_token i)) (s, g))"
    unfolding set_rmatch_Opt by blast
  then show ?thesis
  proof cases
    case 1
    then show ?thesis by simp
  next
    case 2
    from spaced_token_sound[OF 2] show ?thesis by blast
  qed
qed

lemma grps_month_abbrev: "grps month_abbrev = {}"
  by (simp add: month_abbrev_def word_def seqs_def)

lemma digits12_sound:
  assumes "(s', g') \<in> set (rmatch (Grp i (Rep 1 (Some 2) Digit)) (s, g))"
  shows "\<exists>d. g' = (i, d) # g \<and> day_shape d"
proof -
  have ng: "grps (Rep 1 (Some 2) Digit) = {}" by simp
  from rmatch_Grp_captures[OF assms ng] obtain d where d: "g' = (i, d) # g" "s = d @ s'"
    "(s', g) \<in> set (rmatch (Rep 1 (Some 2) Digit) (s, g))" by blast
  from set_rmatch_Rep[OF d(3)] obtain u where u: "s = u @ s'" "1 \<le> length u" "length u \<le> 2"
    "\<forall>c \<in> set u. isdigit c" by auto
  from u(1) d(2) have "u = d" by simp
  with u have "day_shape d" by (auto simp: day_shape_def)
  with d(1) show ?thesis by blast
qed

lemma day_marker_sound:
  assumes "(s', g') \<in> set (rmatch day_marker (s, g))"
  shows "\<exists>d mon. day_shape d \<and> (g' = [(2, mon), (1, d)] @ g \<or> g' = [(4, d), (3, mon)] @ g)"
proof -
  let ?dd = "Rep 1 (Some 2) Digit"
  let ?dash = "Atom (Lit (CHR ''-''))"
  from assms consider
    (dm) "(s', g') \<in> set (rmatch (seqs [Grp 1 ?dd, ?dash, Grp 2 month_abbrev]) (s, g))"
  | (md) "(s', g') \<in> set (rmatch (seqs [Grp 3 month_abbrev, ?dash, Grp 4 ?dd]) (s, g))"
    unfolding day_marker_def rmatch.simps set_append by blast
  then show ?thesis
  proof cases
    case dm
    from dm obtain s1 g1 where 1: "(s1, g1) \<in> set (rmatch (Grp 1 ?dd) (s, g))"
      and r1: "(s', g') \<in> set (rmatch (seqs [?dash, Grp 2 month_abbrev]) (s1, g1))"
      by (rule rmatch_seqsE)
    from r1 obtain s2 g2 where 2: "(s2, g2) \<in> set (rmatch ?dash (s1, g1))"
      and r2: "(s', g') \<in> set (rmatch (seqs [Grp 2 month_abbrev]) (s2, g2))"
      by (rule rmatch_seqsE)
    from r2 obtain s3 g3 where 3: "(s3, g3) \<in> set (rmatch (Grp 2 month_abbrev) (s2, g2))"
      and r3: "(s', g') \<in> set (rmatch (seqs []) (s3, g3))"
      by (rule rmatch_seqsE)
    from r3 have e: "g' = g3" by (simp only: rmatch_seqs_Nil prod.inject)
    from digits12_sound[OF 1] obtain d where d: "g1 = (1, d) # g" "day_shape d" by blast
    from 2 have g2: "g2 = g1" unfolding set_rmatch_Atom by blast
    from rmatch_Grp_captures[OF 3 grps_month_abbrev] obtain mon where "g3 = (2, mon) # g2"
      by blast
    with d g2 e have "day_shape d \<and> g' = [(2, mon), (1, d)] @ g" by simp
    then show ?thesis by blast
  next
    case md
    from md obtain s1 g1 where 1: "(s1, g1) \<in> set (rmatch (Grp 3 month_abbrev) (s, g))"
      and r1: "(s', g') \<in> set (rmatch (seqs [?dash, Grp 4 ?dd]) (s1, g1))"
      by (rule rmatch_seqsE)
    from r1 obtain s2 g2 where 2: "(s2, g2) \<in> set (rmatch ?dash (s1, g1))"
      and r2: "(s', g') \<in> set (rmatch (seqs [Grp 4 ?dd]) (s2, g2))"
      by (rule rmatch_seqsE)
    from r2 obtain s3 g3 where 3: "(s3, g3) \<in> set (rmatch (Grp 4 ?dd) (s2, g2))"
      and r3: "(s', g') \<in> set (rmatch (seqs []) (s3, g3))"
      by (rule rmatch_seqsE)
    from r3 have e: "g' = g3" by (simp only: rmatch_seqs_Nil prod.inject)
    from rmatch_Grp_captures[OF 1 grps_month_abbrev] obtain mon where mon: "g1 = (3, mon) # g"
      by blast
    from 2 have g2: "g2 = g1" unfolding set_rmatch_Atom by blast
    from digits12_sound[OF 3] obtain d where d: "g3 = (4, d) # g2" "day_shape d" by blast
    with mon g2 e have "day_shape d \<and> g' = [(4, d), (3, mon)] @ g" by simp
    then show ?thesis by blast
  qed
qed

lemma pattern_sound:
  assumes "(s', g') \<in> set (rmatch pattern (s, []))"
  shows "caps_ok g' \<and> length s' < length s"
proof -
  from assms have r0: "(s', g') \<in> set (rmatch (seqs [day_marker, one_or_more_space, time_token 5, one_or_more_space, time_token 6, one_or_more_space, time_token 7, one_or_more_space, time_token 8, Opt (Seq one_or_more_space (time_token 9)), Opt (Seq one_or_more_space (time_token 10))]) (s, []))"
    by (simp only: pattern_def)
  from r0 obtain s1 g1 where m1: "(s1, g1) \<in> set (rmatch (day_marker) (s, []))"
    and r1: "(s', g') \<in> set (rmatch (seqs [one_or_more_space, time_token 5, one_or_more_space, time_token 6, one_or_more_space, time_token 7, one_or_more_space, time_token 8, Opt (Seq one_or_more_space (time_token 9)), Opt (Seq one_or_more_space (time_token 10))]) (s1, g1))"
    by (rule rmatch_seqsE)
  from r1 obtain s2 g2 where m2: "(s2, g2) \<in> set (rmatch (one_or_more_space) (s1, g1))"
    and r2: "(s', g') \<in> set (rmatch (seqs [time_token 5, one_or_more_space, time_token 6, one_or_more_space, time_token 7, one_or_more_space, time_token 8, Opt (Seq one_or_more_space (time_token 9)), Opt (Seq one_or_more_space (time_token 10))]) (s2, g2))"
    by (rule rmatch_seqsE)
  from r2 obtain s3 g3 where m3: "(s3, g3) \<in> set (rmatch (time_token 5) (s2, g2))"
    and r3: "(s', g') \<in> set (rmatch (seqs [one_or_more_space, time_token 6, one_or_more_space, time_token 7, one_or_more_space, time_token 8, Opt (Seq one_or_more_space (time_token 9)), Opt (Seq one_or_more_space (time_token 10))]) (s3, g3))"
    by (rule rmatch_seqsE)
  from r3 obtain s4 g4 where m4: "(s4, g4) \<in> set (rmatch (one_or_more_space) (s3, g3))"
    and r4: "(s', g') \<in> set (rmatch (seqs [time_token 6, one_or_more_space, time_token 7, one_or_more_space, time_token 8, Opt (Seq one_or_more_space (time_token 9)), Opt (Seq one_or_more_space (time_token 10))]) (s4, g4))"
    by (rule rmatch_seqsE)
  from r4 obtain s5 g5 where m5: "(s5, g5) \<in> set (rmatch (time_token 6) (s4, g4))"
    and r5: "(s', g') \<in> set (rmatch (seqs [one_or_more_space, time_token 7, one_or_more_space, time_token 8, Opt (Seq one_or_more_space (time_token 9)), Opt (Seq one_or_more_space (time_token 10))]) (s5, g5))"
    by (rule rmatch_seqsE)
  from r5 obtain s6 g6 where m6: "(s6, g6) \<in> set (rmatch (one_or_more_space) (s5, g5))"
    and r6: "(s', g') \<in> set (rmatch (seqs [time_token 7, one_or_more_space, time_token 8, Opt (Seq one_or_more_space (time_token 9)), Opt (Seq one_or_more_space (time_token 10))]) (s6, g6))"
    by (rule rmatch_seqsE)
  from r6 obtain s7 g7 where m7: "(s7, g7) \<in> set (rmatch (time_token 7) (s6, g6))"
    and r7: "(s', g') \<in> set (rmatch (seqs [one_or_more_space, time_token 8, Opt (Seq one_or_more_space (time_token 9)), Opt (Seq one_or_more_space (time_token 10))]) (s7, g7))"
    by (rule rmatch_seqsE)
  from r7 obtain s8 g8 where m8: "(s8, g8) \<in> set (rmatch (one_or_more_space) (s7, g7))"
    and r8: "(s', g') \<in> set (rmatch (seqs [time_token 8, Opt (Seq one_or_more_space (time_token 9)), Opt (Seq one_or_more_space (time_token 10))]) (s8, g8))"
    by (rule rmatch_seqsE)
  from r8 obtain s9 g9 where m9: "(s9, g9) \<in> set (rmatch (time_token 8) (s8, g8))"
    and r9: "(s', g') \<in> set (rmatch (seqs [Opt (Seq one_or_more_space (time_token 9)), Opt (Seq one_or_more_space (time_token 10))]) (s9, g9))"
    by (rule rmatch_seqsE)
  from r9 obtain s10 g10 where m10: "(s10, g10) \<in> set (rmatch (Opt (Seq one_or_more_space (time_token 9))) (s9, g9))"
    and r10: "(s', g') \<in> set (rmatch (seqs [Opt (Seq one_or_more_space (time_token 10))]) (s10, g10))"
    by (rule rmatch_seqsE)
  from r10 obtain s11 g11 where m11: "(s11, g11) \<in> set (rmatch (Opt (Seq one_or_more_space (time_token 10))) (s10, g10))"
    and r11: "(s', g') \<in> set (rmatch (seqs []) (s11, g11))"
    by (rule rmatch_seqsE)
  from r11 have e: "g' = g11" "s' = s11" by (simp_all only: rmatch_seqs_Nil prod.inject)
  from day_marker_sound[OF m1] have base: "base_ok g1" by (auto simp: base_ok_def)
  from spaces_sound[OF m2] have g2: "g2 = g1" and l2: "length s2 < length s1" by simp_all
  from time_token_sound[OF m3] obtain t5 where t5: "g3 = (5, t5) # g2" "time_shape t5" by blast
  from spaces_sound[OF m4] have g4: "g4 = g3" by simp
  from time_token_sound[OF m5] obtain t6 where t6: "g5 = (6, t6) # g4" "time_shape t6" by blast
  from spaces_sound[OF m6] have g6: "g6 = g5" by simp
  from time_token_sound[OF m7] obtain t7 where t7: "g7 = (7, t7) # g6" "time_shape t7" by blast
  from spaces_sound[OF m8] have g8: "g8 = g7" by simp
  from time_token_sound[OF m9] obtain t8 where t8: "g9 = (8, t8) # g8" "time_shape t8" by blast
  have g9: "g9 = [(8, t8), (7, t7), (6, t6), (5, t5)] @ g1"
    using g2 t5(1) g4 t6(1) g6 t7(1) g8 t8(1) by simp
  from opt_token_sound[OF m10] have o9: "g10 = g9 \<or> (\<exists>u. g10 = (9, u) # g9 \<and> time_shape u)" .
  from opt_token_sound[OF m11] have o10: "g11 = g10 \<or> (\<exists>u. g11 = (10, u) # g10 \<and> time_shape u)" .
  from o9 o10 obtain opt where opt: "g11 = opt @ g9" "opt_ok opt"
    unfolding opt_ok_def by (elim disjE exE conjE) (fastforce+)
  have "g' = opt @ [(8, t8), (7, t7), (6, t6), (5, t5)] @ g1" using e(1) opt(1) g9 by simp
  with opt(2) t5(2) t6(2) t7(2) t8(2) base have ok: "caps_ok g'"
    unfolding caps_ok_def by blast
  from rmatch_sound[OF m1] have "length s1 \<le> length s" by auto
  moreover from rmatch_sound[OF r2] have "length s' \<le> length s2" by auto
  ultimately have "length s' < length s" using l2 by simp
  with ok show ?thesis by simp
qed

lemma isdigit_not_space: "isdigit c \<Longrightarrow> \<not> isspace c"
  by (auto simp: isdigit_def isspace_def)

lemma letter_not_space: "c \<in> set ''APapMm'' \<Longrightarrow> \<not> isspace c"
  by (auto simp: isspace_def)

lemma dropWhile_hd: "xs \<noteq> [] \<Longrightarrow> \<not> P (hd xs) \<Longrightarrow> dropWhile P xs = xs"
  by (cases xs) auto

lemma strip_id:
  assumes "u \<noteq> []" "\<not> isspace (hd u)" "\<not> isspace (last u)"
  shows "strip u = u"
proof -
  from assms(1,2) have a: "dropWhile isspace u = u" by (rule dropWhile_hd)
  have r: "rev u \<noteq> []" using assms(1) by simp
  have "hd (rev u) = last u" using assms(1) by (simp add: hd_rev)
  with assms(3) have "\<not> isspace (hd (rev u))" by simp
  with r have b: "dropWhile isspace (rev u) = rev u" by (rule dropWhile_hd)
  show ?thesis unfolding strip_def a b by simp
qed

lemma time_shape_nonempty: "time_shape u \<Longrightarrow> u \<noteq> []"
  by (auto simp: time_shape_def)

lemma time_shape_letter: "time_shape u \<Longrightarrow> \<exists>c \<in> set u. c \<in> set ''APap''"
  unfolding time_shape_def by fastforce

lemma time_shape_strip:
  assumes "time_shape u"
  shows "strip u = u"
proof -
  from assms obtain d1 d2 w a m where u: "u = d1 @ [CHR '':''] @ d2 @ w @ [a] @ m"
    and d1: "d1 \<noteq> []" "\<forall>c \<in> set d1. isdigit c"
    and a: "a \<in> set ''APap''" and m: "m = [] \<or> m = ''M'' \<or> m = ''m''"
    unfolding time_shape_def by blast
  have ne: "u \<noteq> []" using u by simp
  have "hd u = hd d1" using u d1(1) by simp
  moreover have "isdigit (hd d1)" using d1 by simp
  ultimately have h: "\<not> isspace (hd u)" using isdigit_not_space by simp
  have "last u \<in> set ''APapMm''" using u a m by auto
  then have l: "\<not> isspace (last u)" by (rule letter_not_space)
  from strip_id[OF ne h l] show ?thesis .
qed

lemma digit_val_digit:
  assumes "isdigit c"
  shows "digit_val c < 10 \<and> ''0123456789'' ! digit_val c = c"
proof -
  from assms consider "c = CHR ''0''" | "c = CHR ''1''" | "c = CHR ''2''" | "c = CHR ''3''"
    | "c = CHR ''4''" | "c = CHR ''5''" | "c = CHR ''6''" | "c = CHR ''7''" | "c = CHR ''8''"
    | "c = CHR ''9''"
    unfolding isdigit_def by auto
  then show ?thesis by cases (simp_all add: digit_val_def)
qed

lemma digit_val_zero: "isdigit c \<Longrightarrow> digit_val c = 0 \<Longrightarrow> c = CHR ''0''"
  using digit_val_digit[of c] by auto

lemma decimal_small: "n < 10 \<Longrightarrow> decimal n = [''0123456789'' ! n]"
  by (subst decimal.simps) simp

lemma decimal_two:
  assumes "10 \<le> n" "n < 100"
  shows "decimal n = [''0123456789'' ! (n div 10), ''0123456789'' ! (n mod 10)]"
proof -
  have "n div 10 < 10" using assms(2) by simp
  then have "decimal (n div 10) = [''0123456789'' ! (n div 10)]" by (rule decimal_small)
  moreover have "decimal n = decimal (n div 10) @ [''0123456789'' ! (n mod 10)]"
    using assms(1) by (subst decimal.simps) simp
  ultimately show ?thesis by simp
qed

lemma day_shape_int:
  assumes "day_shape d"
  shows "\<exists>n. py_int d = Inr n \<and> fmt02d n = pad2 d"
proof -
  from assms have ne: "d \<noteq> []" and len: "length d \<le> 2" and dig: "\<forall>c \<in> set d. isdigit c"
    by (simp_all add: day_shape_def)
  have int: "py_int d = Inr (foldl (\<lambda>n c. 10 * n + digit_val c) 0 d)"
    using ne dig by (simp add: py_int_def)
  from ne len consider c where "d = [c]" | c1 c2 where "d = [c1, c2]"
    by (cases d; cases "tl d") auto
  then have "fmt02d (foldl (\<lambda>n c. 10 * n + digit_val c) 0 d) = pad2 d"
  proof cases
    case 1
    with dig have c: "digit_val c < 10" "''0123456789'' ! digit_val c = c"
      using digit_val_digit[of c] by simp_all
    from 1 have "foldl (\<lambda>n c. 10 * n + digit_val c) 0 d = digit_val c" by simp
    moreover have "decimal (digit_val c) = [c]" using decimal_small[OF c(1)] c(2) by simp
    ultimately show ?thesis using 1 by (simp add: fmt02d_def pad2_def)
  next
    case 2
    with dig have c1: "digit_val c1 < 10" "''0123456789'' ! digit_val c1 = c1"
      and c2: "digit_val c2 < 10" "''0123456789'' ! digit_val c2 = c2"
      and d1: "isdigit c1"
      using digit_val_digit[of c1] digit_val_digit[of c2] by simp_all
    let ?n = "10 * digit_val c1 + digit_val c2"
    from 2 have val: "foldl (\<lambda>n c. 10 * n + digit_val c) 0 d = ?n" by simp
    show ?thesis
    proof (cases "digit_val c1 = 0")
      case True
      then have "c1 = CHR ''0''" using digit_val_zero[OF d1] by simp
      moreover have "decimal ?n = [c2]" using True decimal_small[OF c2(1)] c2(2) by simp
      ultimately show ?thesis using 2 val by (simp add: fmt02d_def pad2_def)
    next
      case False
      then have ge: "10 \<le> ?n" by simp
      have lt: "?n < 100" using c1(1) c2(1) by simp
      have dv: "?n div 10 = digit_val c1" using c2(1) by simp
      have md: "?n mod 10 = digit_val c2" using c2(1) by simp
      have "decimal ?n = [c1, c2]" using decimal_two[OF ge lt] dv md c1(2) c2(2) by simp
      then show ?thesis using 2 val by (simp add: fmt02d_def pad2_def)
    qed
  qed
  with int show ?thesis by simp
qed

lemma caps_ok_day:
  assumes "caps_ok g"
  shows "(day_shape (group g 1) \<and> group g 4 = []) \<or> (group g 1 = [] \<and> day_shape (group g 4))"
proof -
  from assms obtain opt t8 t7 t6 t5 base where
    g: "g = opt @ [(8, t8), (7, t7), (6, t6), (5, t5)] @ base" and o: "opt_ok opt"
    and b: "base_ok base" unfolding caps_ok_def by blast
  from o have k: "map_of opt 1 = None" "map_of opt 4 = None"
    unfolding opt_ok_def by auto
  from b obtain d mon where d: "day_shape d"
    and bb: "base = [(2, mon), (1, d)] \<or> base = [(4, d), (3, mon)]"
    unfolding base_ok_def by blast
  from bb show ?thesis
  proof
    assume "base = [(2, mon), (1, d)]"
    with g k d show ?thesis by (simp add: group_def map_add_def)
  next
    assume "base = [(4, d), (3, mon)]"
    with g k d show ?thesis by (simp add: group_def map_add_def)
  qed
qed

lemma caps_ok_times:
  assumes "caps_ok g"
  shows "time_shape (group g 5) \<and> time_shape (group g 6) \<and> time_shape (group g 7) \<and>
         time_shape (group g 8)"
proof -
  from assms obtain opt t8 t7 t6 t5 base where
    g: "g = opt @ [(8, t8), (7, t7), (6, t6), (5, t5)] @ base" and o: "opt_ok opt"
    and t: "time_shape t8" "time_shape t7" "time_shape t6" "time_shape t5"
    unfolding caps_ok_def by blast
  from o have k: "map_of opt 5 = None" "map_of opt 6 = None" "map_of opt 7 = None"
    "map_of opt 8 = None"
    unfolding opt_ok_def by auto
  from g k t show ?thesis by (simp add: group_def map_add_def)
qed

lemma caps_ok_opt:
  assumes "caps_ok g"
  shows "(group g 9 = [] \<or> time_shape (group g 9)) \<and>
         (group g 10 = [] \<or> time_shape (group g 10))"
proof -
  from assms obtain opt t8 t7 t6 t5 base where
    g: "g = opt @ [(8, t8), (7, t7), (6, t6), (5, t5)] @ base" and o: "opt_ok opt"
    and b: "base_ok base" unfolding caps_ok_def by blast
  from b have k: "map_of base 9 = None" "map_of base 10 = None"
    unfolding base_ok_def by auto
  from o consider "opt = []" | t9 where "time_shape t9" "opt = [(9, t9)]"
    | t10 where "time_shape t10" "opt = [(10, t10)]"
    | t9 t10 where "time_shape t9" "time_shape t10" "opt = [(10, t10), (9, t9)]"
    unfolding opt_ok_def by blast
  then show ?thesis
    using g k by cases (simp_all add: group_def map_add_def)
qed

lemma concat_map_fst:
  assumes "\<And>s g. map fst (f (s, g)) = h s"
  shows "map fst (concat (map f xs)) = concat (map h (map fst xs))"
proof (induction xs)
  case Nil
  show ?case by simp
next
  case (Cons x xs)
  obtain s g where x: "x = (s, g)" by (cases x)
  show ?case using Cons.IH assms[of s g] x by simp
qed

lemma rests_Grp: "map fst (rmatch (Grp i r) (s, g)) = map fst (rmatch r (s, g))"
  by (simp add: comp_def case_prod_unfold)

lemma rests_caps:
  "map fst (rmatch r (s, g)) = map fst (rmatch r (s, []))"
proof (induction r arbitrary: s g)
  case Eps
  show ?case by simp
next
  case (Atom a)
  show ?case by (cases s) auto
next
  case (Rep m n a)
  show ?case by (simp add: Let_def comp_def)
next
  case (Seq r1 r2)
  let ?h = "\<lambda>s. map fst (rmatch r2 (s, []))"
  have a: "map fst (rmatch (Seq r1 r2) (s, g')) = concat (map ?h (map fst (rmatch r1 (s, g'))))"
    for g'
    unfolding rmatch.simps by (rule concat_map_fst) (rule Seq.IH(2))
  show ?case unfolding a[of g] a[of "[]"] Seq.IH(1)[of s g] ..
next
  case (Alt r1 r2)
  show ?case using Alt.IH(1)[of s g] Alt.IH(2)[of s g] by simp
next
  case (Opt r)
  show ?case using Opt.IH[of s g] by simp
next
  case (Grp i r)
  show ?case unfolding rests_Grp by (rule Grp.IH)
qed

lemma rests_erase:
  "map fst (rmatch r (s, [])) = map fst (rmatch (erase r) (s, []))"
proof (induction r arbitrary: s)
  case Eps
  show ?case by simp
next
  case (Atom a)
  show ?case by simp
next
  case (Rep m n a)
  show ?case by simp
next
  case (Seq r1 r2)
  let ?h = "\<lambda>s. map fst (rmatch r2 (s, []))"
  let ?h' = "\<lambda>s. map fst (rmatch (erase r2) (s, []))"
  have a: "map fst (rmatch (Seq r1 r2) (s, [])) = concat (map ?h (map fst (rmatch r1 (s, []))))"
    unfolding rmatch.simps by (rule concat_map_fst) (rule rests_caps)
  have b: "map fst (rmatch (Seq (erase r1) (erase r2)) (s, [])) =
             concat (map ?h' (map fst (rmatch (erase r1) (s, []))))"
    unfolding rmatch.simps by (rule concat_map_fst) (rule rests_caps)
  have h: "?h = ?h'" by (rule ext) (rule Seq.IH(2))
  show ?case unfolding erase.simps a b h Seq.IH(1)[of s] ..
next
  case (Alt r1 r2)
  show ?case using Alt.IH(1)[of s] Alt.IH(2)[of s] by simp
next
  case (Opt r)
  show ?case using Opt.IH[of s] by simp
next
  case (Grp i r)
  show ?case unfolding rests_Grp erase.simps by (rule Grp.IH)
qed

lemma erase_spaced_token:
  "erase (Seq one_or_more_space (time_token i)) = erase (Seq one_or_more_space (time_token j))"
  by (simp add: time_token_def)

lemma spaced_token_empty:
  assumes "rmatch (Seq one_or_more_space (time_token i)) (s, g) = []"
  shows "rmatch (Seq one_or_more_space (time_token j)) (s, g') = []"
proof -
  let ?ri = "Seq one_or_more_space (time_token i)"
  let ?rj = "Seq one_or_more_space (time_token j)"
  have "map fst (rmatch ?rj (s, g')) = map fst (rmatch (erase ?rj) (s, []))"
    using rests_caps[of ?rj s g'] rests_erase[of ?rj s] by (rule trans)
  also have "\<dots> = map fst (rmatch (erase ?ri) (s, []))"
    by (simp only: erase_spaced_token[of j i])
  also have "\<dots> = map fst (rmatch ?ri (s, g))"
    using rests_caps[of ?ri s g] rests_erase[of ?ri s] by (simp only:)
  also have "\<dots> = []" by (simp only: assms list.map)
  finally show ?thesis by (simp only: map_is_Nil_conv)
qed

lemma concat_map_concat:
  "concat (map f (concat (map g zs))) = concat (map (\<lambda>z. concat (map f (g z))) zs)"
  by (induction zs) simp_all

lemma rmatch_seqs_append:
  "rmatch (seqs (xs @ ys)) st = concat (map (rmatch (seqs ys)) (rmatch (seqs xs) st))"
proof (induction xs arbitrary: st)
  case Nil
  show ?case by (simp add: seqs_Nil)
next
  case (Cons x xs)
  have "rmatch (seqs ((x # xs) @ ys)) st =
          concat (map (\<lambda>z. rmatch (seqs (xs @ ys)) z) (rmatch x st))"
    by (simp add: seqs_Cons)
  also have "\<dots> = concat (map (\<lambda>z. concat (map (rmatch (seqs ys)) (rmatch (seqs xs) z)))
                       (rmatch x st))"
    by (simp only: Cons.IH)
  also have "\<dots> = concat (map (rmatch (seqs ys)) (concat (map (rmatch (seqs xs)) (rmatch x st))))"
    by (rule concat_map_concat[symmetric])
  also have "\<dots> = concat (map (rmatch (seqs ys)) (rmatch (seqs (x # xs)) st))"
    by (simp add: seqs_Cons)
  finally show ?case .
qed

lemma grps_head:
  "grps (seqs [day_marker, one_or_more_space, time_token 5, one_or_more_space,
               time_token 6, one_or_more_space, time_token 7, one_or_more_space,
               time_token 8]) = {1, 2, 3, 4, 5, 6, 7, 8}"
  by (auto simp: seqs_def day_marker_def time_token_def one_or_more_space_def grps_month_abbrev)

lemma concat_map_Eps: "concat (map (rmatch Eps) xs) = xs"
  by (induction xs) simp_all

lemma rmatch_Seq_Eps: "rmatch (Seq r Eps) = rmatch r"
  by (rule ext) (simp add: concat_map_Eps)

lemma rmatch_Opt_fun: "rmatch (Opt r) = (\<lambda>m. rmatch r m @ [m])"
  by (rule ext) simp

lemma rmatch_two_opts:
  "rmatch (seqs [Opt a, Opt b]) st =
     concat (map (\<lambda>m. rmatch b m @ [m]) (rmatch a st @ [st]))"
proof -
  have "rmatch (seqs [Opt a, Opt b]) st =
          concat (map (rmatch (Seq (Opt b) Eps)) (rmatch (Opt a) st))"
    by (simp only: seqs_Cons seqs_Nil rmatch.simps)
  also have "\<dots> = concat (map (rmatch (Opt b)) (rmatch (Opt a) st))"
    by (simp only: rmatch_Seq_Eps)
  also have "\<dots> = concat (map (\<lambda>m. rmatch b m @ [m]) (rmatch a st @ [st]))"
    by (simp only: rmatch_Opt_fun)
  finally show ?thesis .
qed

lemma hd_concat_first: "f x \<noteq> [] \<Longrightarrow> hd (concat (map f (x # xs))) = hd (f x)"
  by simp

lemma group_absent: "i \<notin> fst ` set g \<Longrightarrow> group g i = []"
  by (simp add: group_def map_of_eq_None_iff[THEN iffD2])

lemma first_match_order:
  assumes "rmatch pattern (s, []) = (s', g') # rest"
  shows "group g' 10 \<noteq> [] \<longrightarrow> group g' 9 \<noteq> []"
proof -
  note rmatch.simps [simp del]
  let ?head = "[day_marker, one_or_more_space, time_token 5, one_or_more_space,
               time_token 6, one_or_more_space, time_token 7, one_or_more_space,
               time_token 8]"
  let ?a = "Seq one_or_more_space (time_token 9)"
  let ?b = "Seq one_or_more_space (time_token 10)"
  let ?T = "rmatch (seqs [Opt ?a, Opt ?b])"
  have pat: "pattern = seqs (?head @ [Opt ?a, Opt ?b])" by (simp add: pattern_def)
  have all: "rmatch pattern (s, []) = concat (map ?T (rmatch (seqs ?head) (s, [])))"
    unfolding pat by (rule rmatch_seqs_append)
  obtain h hs where hs: "rmatch (seqs ?head) (s, []) = h # hs"
    using all assms by (cases "rmatch (seqs ?head) (s, [])") auto
  obtain s9 g9 where h: "h = (s9, g9)" by (cases h)
  have "(s9, g9) \<in> set (rmatch (seqs ?head) (s, []))" using hs h by simp
  from rmatch_sound[OF this] have keys: "fst ` set g9 \<subseteq> {1, 2, 3, 4, 5, 6, 7, 8}"
    unfolding grps_head by auto
  have g10: "group g9 10 = []" using keys by (intro group_absent) auto
  have Th: "?T h = concat (map (\<lambda>m. rmatch ?b m @ [m]) (rmatch ?a h @ [h]))"
    by (rule rmatch_two_opts)
  have first: "(s', g') = hd (?T h)"
  proof -
    have ne: "?T h \<noteq> []" unfolding Th by simp
    have "hd (concat (map ?T (h # hs))) = hd (?T h)" using ne by simp
    then have "hd (rmatch pattern (s, [])) = hd (?T h)" by (simp only: all hs)
    moreover have "hd (rmatch pattern (s, [])) = (s', g')" by (simp only: assms list.sel)
    ultimately show ?thesis by metis
  qed
  show ?thesis
  proof (cases "rmatch ?a h")
    case Nil
    then have "rmatch ?b h = []" using spaced_token_empty[of 9 s9 g9 10 g9] h by simp
    with Nil Th have "?T h = [h]" by simp
    with first h have "g' = g9" by simp
    with g10 show ?thesis by simp
  next
    case (Cons x xs)
    obtain sx gx where x: "x = (sx, gx)" by (cases x)
    have "(sx, gx) \<in> set (rmatch ?a (s9, g9))" using Cons x h by simp
    from spaced_token_sound[OF this] obtain u where u: "gx = (9, u) # g9" "time_shape u"
      by blast
    have nine: "group gx 9 \<noteq> []" using u time_shape_nonempty by (simp add: group_def)
    have "hd (concat (map (\<lambda>m. rmatch ?b m @ [m]) (x # (xs @ [h])))) = hd (rmatch ?b x @ [x])"
      using hd_concat_first[of "\<lambda>m. rmatch ?b m @ [m]" x "xs @ [h]"] by blast
    then have hdT: "hd (?T h) = hd (rmatch ?b x @ [x])"
      by (simp only: Th Cons append_Cons)
    show ?thesis
    proof (cases "rmatch ?b x")
      case Nil
      with hdT first x have "g' = gx" by simp
      with nine show ?thesis by simp
    next
      case (Cons y ys)
      with hdT first have y: "y = (s', g')" by simp
      have "(s', g') \<in> set (rmatch ?b (sx, gx))" using Cons y x by simp
      from spaced_token_sound[OF this] obtain v where "g' = (10, v) # gx" by blast
      with nine show ?thesis by (simp add: group_def)
    qed
  qed
qed

lemma consumingD: "consuming r \<Longrightarrow> (s', g) \<in> set (rmatch r (s, [])) \<Longrightarrow> length s' < length s"
  unfolding consuming_def by blast

lemma scan_nomatch:
  "rmatch r (s, []) = [] \<Longrightarrow>
     scan r pos s = (case s of [] \<Rightarrow> [] | c # cs \<Rightarrow> scan r (Suc pos) cs)"
  by (subst scan.simps) simp

lemma scan_match:
  "rmatch r (s, []) = (s', g) # others \<Longrightarrow> length s' < length s \<Longrightarrow>
     scan r pos s = (pos, pos + (length s - length s'), g) #
                    scan r (pos + (length s - length s')) s'"
  by (subst scan.simps) simp

lemma drop_Suc_tail: "drop pos text = c # cs \<Longrightarrow> drop (Suc pos) text = cs"
  by (metis drop_Suc list.sel(3) tl_drop)

lemma scan_spans:
  assumes cons: "consuming r"
  shows "s = drop pos text \<Longrightarrow> pos \<le> length text \<Longrightarrow> (b, e, g) \<in> set (scan r pos s) \<Longrightarrow>
         pos \<le> b \<and> b < e \<and> e \<le> length text \<and> rmatch r (drop b text, []) \<noteq> [] \<and>
         hd (rmatch r (drop b text, [])) = (drop e text, g)"
proof (induction "length s" arbitrary: s pos rule: less_induct)
  case less
  show ?case
  proof (cases "rmatch r (s, [])")
    case Nil
    note nomatch = Nil
    show ?thesis
    proof (cases s)
      case Nil
      with nomatch less.prems(3) show ?thesis by (simp add: scan_nomatch)
    next
      case (Cons c cs)
      have sc: "scan r pos s = scan r (Suc pos) cs" using nomatch Cons by (simp add: scan_nomatch)
      have d: "cs = drop (Suc pos) text" using less.prems(1) Cons drop_Suc_tail[of pos "text" c cs] by simp
      have p: "Suc pos \<le> length text"
      proof (rule ccontr)
        assume "\<not> Suc pos \<le> length text"
        then have "drop pos text = []" by simp
        with less.prems(1) Cons show False by simp
      qed
      have m: "(b, e, g) \<in> set (scan r (Suc pos) cs)" using less.prems(3) sc by simp
      have "length cs < length s" using Cons by simp
      from less.hyps[OF this d p m] show ?thesis by simp
    qed
  next
    case (Cons x others)
    obtain s' g0 where x: "x = (s', g0)" by (cases x)
    have mem: "(s', g0) \<in> set (rmatch r (s, []))" using Cons x by simp
    have lt: "length s' < length s" using consumingD[OF cons mem] .
    from rmatch_sound[OF mem] obtain u where u: "s = u @ s'" by blast
    have lu: "length s - length s' = length u" using u by simp
    have upos: "0 < length u" using lt u by simp
    have ls: "length s = length text - pos" using less.prems(1) by simp
    have e0: "pos + length u \<le> length text" using ls u less.prems(2) by simp
    have s': "s' = drop (pos + length u) text"
    proof -
      have "s' = drop (length u) s" using u by simp
      then show ?thesis using less.prems(1) by (simp add: add.commute)
    qed
    have sc: "scan r pos s = (pos, pos + length u, g0) # scan r (pos + length u) s'"
      using scan_match[of r s s' g0 others pos] Cons x lt lu by simp
    from less.prems(3) sc consider "(b, e, g) = (pos, pos + length u, g0)"
      | "(b, e, g) \<in> set (scan r (pos + length u) s')" by auto
    then show ?thesis
    proof cases
      case 1
      have "rmatch r (drop pos text, []) = (drop (pos + length u) text, g0) # others"
        using Cons x s' less.prems(1) by simp
      with 1 upos e0 show ?thesis by simp
    next
      case 2
      from less.hyps[OF lt s' e0 2] show ?thesis by simp
    qed
  qed
qed

lemma scan_sorted:
  assumes cons: "consuming r"
  shows "sorted_wrt (\<lambda>x y. fst (snd x) \<le> fst y) (scan r pos s)"
proof (induction "length s" arbitrary: s pos rule: less_induct)
  case less
  show ?case
  proof (cases "rmatch r (s, [])")
    case Nil
    note nomatch = Nil
    show ?thesis
    proof (cases s)
      case Nil
      with nomatch show ?thesis by (simp add: scan_nomatch)
    next
      case (Cons c cs)
      have sc: "scan r pos s = scan r (Suc pos) cs" using nomatch Cons by (simp add: scan_nomatch)
      have "length cs < length s" using Cons by simp
      from less.hyps[OF this] sc show ?thesis by simp
    qed
  next
    case (Cons x others)
    obtain s' g0 where x: "x = (s', g0)" by (cases x)
    have mem: "(s', g0) \<in> set (rmatch r (s, []))" using Cons x by simp
    have lt: "length s' < length s" using consumingD[OF cons mem] .
    let ?e = "pos + (length s - length s')"
    have sc: "scan r pos s = (pos, ?e, g0) # scan r ?e s'"
      using scan_match[of r s s' g0 others pos] Cons x lt by simp
    have low: "\<forall>y \<in> set (scan r ?e s'). ?e \<le> fst y"
    proof
      fix y assume y: "y \<in> set (scan r ?e s')"
      obtain b e g where yy: "y = (b, e, g)" by (cases y)
      have "s' = drop ?e (replicate ?e undefined @ s')" by simp
      moreover have "?e \<le> length (replicate ?e undefined @ s')" by simp
      moreover have "(b, e, g) \<in> set (scan r ?e s')" using y yy by simp
      ultimately have "?e \<le> b"
        using scan_spans[OF cons, of s' ?e "replicate ?e undefined @ s'" b e g] by blast
      then show "?e \<le> fst y" using yy by simp
    qed
    from less.hyps[OF lt] low sc show ?thesis by simp
  qed
qed

lemma scan_covers:
  assumes cons: "consuming r"
  shows "s = drop pos text \<Longrightarrow> pos \<le> p \<Longrightarrow> p \<le> length text \<Longrightarrow>
         rmatch r (drop p text, []) \<noteq> [] \<Longrightarrow>
         \<exists>x \<in> set (scan r pos s). fst x \<le> p \<and> p < fst (snd x)"
proof (induction "length s" arbitrary: s pos rule: less_induct)
  case less
  show ?case
  proof (cases "rmatch r (s, [])")
    case Nil
    note nomatch = Nil
    have pne: "p \<noteq> pos" using Nil less.prems(1,4) by auto
    show ?thesis
    proof (cases s)
      case Nil
      then have "length text \<le> pos" using less.prems(1) by simp
      with less.prems(2,3) pne show ?thesis by simp
    next
      case (Cons c cs)
      have sc: "scan r pos s = scan r (Suc pos) cs" using nomatch Cons by (simp add: scan_nomatch)
      have d: "cs = drop (Suc pos) text"
        using less.prems(1) Cons drop_Suc_tail[of pos "text" c cs] by simp
      have p: "Suc pos \<le> p" using pne less.prems(2) by simp
      have "length cs < length s" using Cons by simp
      from less.hyps[OF this d p less.prems(3,4)] sc show ?thesis by simp
    qed
  next
    case (Cons x others)
    obtain s' g0 where x: "x = (s', g0)" by (cases x)
    have mem: "(s', g0) \<in> set (rmatch r (s, []))" using Cons x by simp
    have lt: "length s' < length s" using consumingD[OF cons mem] .
    from rmatch_sound[OF mem] obtain u where u: "s = u @ s'" by blast
    have lu: "length s - length s' = length u" using u by simp
    have s': "s' = drop (pos + length u) text"
    proof -
      have "s' = drop (length u) s" using u by simp
      then show ?thesis using less.prems(1) by (simp add: add.commute)
    qed
    have sc: "scan r pos s = (pos, pos + length u, g0) # scan r (pos + length u) s'"
      using scan_match[of r s s' g0 others pos] Cons x lt lu by simp
    show ?thesis
    proof (cases "p < pos + length u")
      case True
      with less.prems(2) sc show ?thesis by simp
    next
      case False
      then have "pos + length u \<le> p" by simp
      from less.hyps[OF lt s' this less.prems(3,4)] sc show ?thesis by auto
    qed
  qed
qed

lemma consuming_pattern: "consuming pattern"
  unfolding consuming_def using pattern_sound by blast

lemma match_record_ok:
  assumes "caps_ok g"
  shows "match_record month (groups g) = Inr (record_of month g)"
proof -
  let ?day = "if group g 1 \<noteq> [] then group g 1 else group g 4"
  have "day_shape ?day" using caps_ok_day[OF assms] by (auto simp: day_shape_def)
  from day_shape_int[OF this] obtain n where n: "py_int ?day = Inr n" "fmt02d n = pad2 ?day"
    by blast
  have t: "strip (group g 5) = group g 5" "strip (group g 6) = group g 6"
    "strip (group g 7) = group g 7" "strip (group g 8) = group g 8"
    using caps_ok_times[OF assms] time_shape_strip by blast+
  have o9: "(if group g 9 \<noteq> [] then strip (group g 9) else []) = group g 9"
    using caps_ok_opt[OF assms] time_shape_strip by auto
  have o10: "(if group g 10 \<noteq> [] then strip (group g 10) else []) = group g 10"
    using caps_ok_opt[OF assms] time_shape_strip by auto
  show ?thesis
    unfolding match_record_def groups_def record_of_def prod.case Let_def n(1) bindE_def
      sum.case n(2) t o9 o10 ..
qed

lemma match_record_months:
  "match_record month (d1, x, y, d4, f, sr, d, a, mg, i) =
   match_record month (d1, x', y', d4, f, sr, d, a, mg, i)"
  by (simp add: match_record_def)

lemma extract_loop_map:
  assumes "\<forall>m \<in> set ms. match_record month m = Inr (f m)"
  shows "extract_loop month ms acc = Inr (acc @ map f ms)"
  using assms by (induction ms arbitrary: acc) (simp_all add: bindE_def)

lemma scan_first:
  assumes "consuming r" "(b, e, g) \<in> set (scan r 0 text)"
  shows "b < e \<and> e \<le> length text \<and> rmatch r (drop b text, []) \<noteq> [] \<and>
         hd (rmatch r (drop b text, [])) = (drop e text, g)"
  using scan_spans[OF assms(1), of "text" 0 "text" b e g] assms(2) by simp

lemma scan_member:
  assumes "consuming r" "(b, e, g) \<in> set (scan r 0 text)"
  shows "\<exists>rest. rmatch r (drop b text, []) = (drop e text, g) # rest"
proof -
  from scan_first[OF assms] have "rmatch r (drop b text, []) \<noteq> []"
    "hd (rmatch r (drop b text, [])) = (drop e text, g)" by simp_all
  then show ?thesis by (cases "rmatch r (drop b text, [])") auto
qed

lemma scan_pattern_caps:
  assumes "(b, e, g) \<in> set (scan pattern 0 text)"
  shows "caps_ok g \<and> (group g 10 \<noteq> [] \<longrightarrow> group g 9 \<noteq> []) \<and>
         (\<forall>v \<in> snd ` set g. piece_of v text)"
proof -
  from scan_member[OF consuming_pattern assms] obtain rest where
    r: "rmatch pattern (drop b text, []) = (drop e text, g) # rest" by blast
  then have mem: "(drop e text, g) \<in> set (rmatch pattern (drop b text, []))" by simp
  from pattern_sound[OF mem] have ok: "caps_ok g" by simp
  from first_match_order[OF r] have ord: "group g 10 \<noteq> [] \<longrightarrow> group g 9 \<noteq> []" .
  from rmatch_sound[OF mem] obtain u where u: "drop b text = u @ drop e text"
    and pc: "\<forall>v \<in> snd ` set g. piece_of v u" by auto
  have "piece_of u text"
  proof -
    have "text = take b text @ u @ drop e text" using u by (metis append_take_drop_id)
    then show ?thesis unfolding piece_of_def by blast
  qed
  then have "\<forall>v \<in> snd ` set g. piece_of v text"
    using pc unfolding piece_of_def by (metis append.assoc)
  with ok ord show ?thesis by simp
qed

lemma extract_eq:
  "extract_from_text_pattern text month =
     Inr (map (\<lambda>(b, e, g). record_of month g) (scan pattern 0 text))"
proof -
  have "\<forall>m \<in> set (findall text). match_record month m =
          Inr ((\<lambda>m. case match_record month m of Inr p \<Rightarrow> p) m)"
  proof
    fix m assume "m \<in> set (findall text)"
    then obtain b e g where "(b, e, g) \<in> set (scan pattern 0 text)" "m = groups g"
      unfolding findall_def by auto
    with scan_pattern_caps match_record_ok show
      "match_record month m = Inr (case match_record month m of Inr p \<Rightarrow> p)"
      by simp
  qed
  from extract_loop_map[OF this]
  have "extract_from_text_pattern text month =
          Inr (map (\<lambda>m. case match_record month m of Inr p \<Rightarrow> p) (findall text))"
    unfolding extract_from_text_pattern_def by simp
  also have "map (\<lambda>m. case match_record month m of Inr p \<Rightarrow> p) (findall text) =
             map (\<lambda>(b, e, g). record_of month g) (scan pattern 0 text)"
    unfolding findall_def map_map
  proof (rule map_cong[OF refl])
    fix x assume x: "x \<in> set (scan pattern 0 text)"
    obtain b e g where xx: "x = (b, e, g)" by (cases x)
    with x scan_pattern_caps have "caps_ok g" by blast
    from match_record_ok[OF this, of month] xx
    show "((\<lambda>m. case match_record month m of Inr p \<Rightarrow> p) \<circ> (\<lambda>(b, e, g). groups g)) x =
          (case x of (b, e, g) \<Rightarrow> record_of month g)"
      by simp
  qed
  finally show ?thesis .
qed

lemma group_piece:
  assumes "\<forall>v \<in> snd ` set g. piece_of v text" "group g i \<noteq> []"
  shows "piece_of (group g i) text"
proof -
  from assms(2) obtain t where t: "map_of g i = Some t" "group g i = t"
    by (cases "map_of g i") (auto simp: group_def)
  then have "(i, t) \<in> set g" by (auto dest: map_of_SomeD)
  then have "t \<in> snd ` set g" by force
  with assms(1) have "piece_of t text" by blast
  then show ?thesis using t(2) by simp
qed

section \<open>The claims on the fallback extractor\<close>

lemma findall_length: "length (findall text) = length (scan pattern 0 text)"
  by (simp add: findall_def)

lemma extract_nth:
  assumes "k < length (scan pattern 0 text)"
  shows "\<exists>b e g. scan pattern 0 text ! k = (b, e, g) \<and> (b, e, g) \<in> set (scan pattern 0 text) \<and>
           findall text ! k = groups g \<and>
           map (\<lambda>(b, e, g). record_of month g) (scan pattern 0 text) ! k = record_of month g"
proof -
  obtain b e g where x: "scan pattern 0 text ! k = (b, e, g)" by (cases "scan pattern 0 text ! k")
  have "(b, e, g) \<in> set (scan pattern 0 text)" using assms x by (metis nth_mem)
  moreover have "findall text ! k = groups g" using assms x by (simp add: findall_def)
  moreover have "map (\<lambda>(b, e, g). record_of month g) (scan pattern 0 text) ! k = record_of month g"
    using assms x by simp
  ultimately show ?thesis using x by blast
qed

text \<open>
  Claim C8. \<open>extract_from_text_pattern\<close> returns normally with exactly one record
  per match of the pattern: every tuple of \<open>findall\<close> gives its record, no record is
  filtered out, and the maghrib and isha fields are the texts of groups 9 and 10, the
  empty string when the group took no part in the match.
\<close>

theorem one_record_per_match:
  "\<exists>ps. extract_from_text_pattern text month = Inr ps \<and>
        length ps = length (findall text) \<and>
        (\<forall>k < length ps.
           case findall text ! k of
             (day1, u1, u2, day2, v_fajr, v_sunrise, v_dhuhr, v_asr, v_maghrib, v_isha) \<Rightarrow>
               match_record month (findall text ! k) = Inr (ps ! k) \<and>
               maghrib (ps ! k) = v_maghrib \<and> isha (ps ! k) = v_isha \<and>
               (v_maghrib = [] \<longrightarrow> maghrib (ps ! k) = []) \<and>
               (v_isha = [] \<longrightarrow> isha (ps ! k) = []))"
proof -
  let ?ps = "map (\<lambda>(b, e, g). record_of month g) (scan pattern 0 text)"
  have a: "extract_from_text_pattern text month = Inr ?ps" by (rule extract_eq)
  have b: "length ?ps = length (findall text)" by (simp add: findall_length)
  have c: "\<forall>k < length ?ps.
           case findall text ! k of
             (day1, u1, u2, day2, v_fajr, v_sunrise, v_dhuhr, v_asr, v_maghrib, v_isha) \<Rightarrow>
               match_record month (findall text ! k) = Inr (?ps ! k) \<and>
               maghrib (?ps ! k) = v_maghrib \<and> isha (?ps ! k) = v_isha \<and>
               (v_maghrib = [] \<longrightarrow> maghrib (?ps ! k) = []) \<and>
               (v_isha = [] \<longrightarrow> isha (?ps ! k) = [])"
  proof (intro allI impI)
    fix k assume "k < length ?ps"
    then have k: "k < length (scan pattern 0 text)" by simp
    from extract_nth[OF k, of month] obtain b e g where
      g: "(b, e, g) \<in> set (scan pattern 0 text)" "findall text ! k = groups g"
         "?ps ! k = record_of month g" by blast
    from scan_pattern_caps[OF g(1)] have ok: "caps_ok g" by simp
    have m: "match_record month (groups g) = Inr (record_of month g)"
      using match_record_ok[OF ok] .
    show "case findall text ! k of
             (day1, u1, u2, day2, v_fajr, v_sunrise, v_dhuhr, v_asr, v_maghrib, v_isha) \<Rightarrow>
               match_record month (findall text ! k) = Inr (?ps ! k) \<and>
               maghrib (?ps ! k) = v_maghrib \<and> isha (?ps ! k) = v_isha \<and>
               (v_maghrib = [] \<longrightarrow> maghrib (?ps ! k) = []) \<and>
               (v_isha = [] \<longrightarrow> isha (?ps ! k) = [])"
      unfolding g(2,3) using m by (simp add: groups_def record_of_def)
  qed
  from a b c show ?thesis by blast
qed

lemma scenario5_findall:
  "findall ''Mar-4 5:00AM 6:15AM 12:30PM 3:45PM'' =
     [('''', '''', ''Mar'', ''4'', ''5:00AM'', ''6:15AM'', ''12:30PM'', ''3:45PM'', '''', '''')]"
  by code_simp

text \<open>
  A text with four time tokens only: one record, with empty maghrib and isha.
\<close>

theorem one_record_per_match_witness:
  "extract_from_text_pattern ''Mar-4 5:00AM 6:15AM 12:30PM 3:45PM'' ''03'' =
     Inr [\<lparr>date = ''03-04'', fajr = ''5:00AM'', sunrise = ''6:15AM'', dhuhr = ''12:30PM'',
           asr = ''3:45PM'', maghrib = '''', isha = ''''\<rparr>]"
proof -
  let ?text = "''Mar-4 5:00AM 6:15AM 12:30PM 3:45PM''"
  from one_record_per_match[of ?text "''03''"] obtain ps where
    ps: "extract_from_text_pattern ?text ''03'' = Inr ps" "length ps = length (findall ?text)"
    and all: "\<forall>k < length ps.
           case findall ?text ! k of
             (day1, u1, u2, day2, v_fajr, v_sunrise, v_dhuhr, v_asr, v_maghrib, v_isha) \<Rightarrow>
               match_record ''03'' (findall ?text ! k) = Inr (ps ! k) \<and>
               maghrib (ps ! k) = v_maghrib \<and> isha (ps ! k) = v_isha \<and>
               (v_maghrib = [] \<longrightarrow> maghrib (ps ! k) = []) \<and>
               (v_isha = [] \<longrightarrow> isha (ps ! k) = [])"
    by blast
  have len: "length ps = 1" using ps(2) by (simp add: scenario5_findall)
  then have "0 < length ps" by simp
  with all have m: "match_record ''03'' (findall ?text ! 0) = Inr (ps ! 0)"
    by (auto simp: scenario5_findall)
  have "match_record ''03'' (findall ?text ! 0) =
     Inr \<lparr>date = ''03-04'', fajr = ''5:00AM'', sunrise = ''6:15AM'', dhuhr = ''12:30PM'',
           asr = ''3:45PM'', maghrib = '''', isha = ''''\<rparr>"
    unfolding scenario5_findall by code_simp
  with m have "ps ! 0 = \<lparr>date = ''03-04'', fajr = ''5:00AM'', sunrise = ''6:15AM'',
     dhuhr = ''12:30PM'', asr = ''3:45PM'', maghrib = '''', isha = ''''\<rparr>" by simp
  with len have "ps = [\<lparr>date = ''03-04'', fajr = ''5:00AM'', sunrise = ''6:15AM'',
     dhuhr = ''12:30PM'', asr = ''3:45PM'', maghrib = '''', isha = ''''\<rparr>]"
    by (cases ps) auto
  with ps(1) show ?thesis by simp
qed

text \<open>
  Claim C7. For each match at most one of the two day groups is non-empty; the one that
  is non-empty consists of one or two digits, so \<open>int\<close> does not raise, and the date of
  the record is the given month, a hyphen and that day padded with a zero to two digits.
  The record is the same whatever the two month-abbreviation groups hold: they are not
  consulted.
\<close>

theorem fallback_date_format:
  "\<exists>ps. extract_from_text_pattern text month = Inr ps \<and>
        length ps = length (findall text) \<and>
        (\<forall>k < length ps.
           case findall text ! k of
             (day1, u1, u2, day2, v_fajr, v_sunrise, v_dhuhr, v_asr, v_maghrib, v_isha) \<Rightarrow>
               (day1 = [] \<or> day2 = []) \<and>
               (let day = (if day1 \<noteq> [] then day1 else day2) in
                  day \<noteq> [] \<and> length day \<le> 2 \<and> (\<forall>c \<in> set day. isdigit c) \<and>
                  date (ps ! k) =
                    month @ ''-'' @ (if length day = 1 then CHR ''0'' # day else day)) \<and>
               (\<forall>x y. match_record month
                  (day1, x, y, day2, v_fajr, v_sunrise, v_dhuhr, v_asr, v_maghrib, v_isha) =
                  Inr (ps ! k)))"
proof -
  let ?ps = "map (\<lambda>(b, e, g). record_of month g) (scan pattern 0 text)"
  have a: "extract_from_text_pattern text month = Inr ?ps" by (rule extract_eq)
  have b: "length ?ps = length (findall text)" by (simp add: findall_length)
  have c: "\<forall>k < length ?ps.
           case findall text ! k of
             (day1, u1, u2, day2, v_fajr, v_sunrise, v_dhuhr, v_asr, v_maghrib, v_isha) \<Rightarrow>
               (day1 = [] \<or> day2 = []) \<and>
               (let day = (if day1 \<noteq> [] then day1 else day2) in
                  day \<noteq> [] \<and> length day \<le> 2 \<and> (\<forall>c \<in> set day. isdigit c) \<and>
                  date (?ps ! k) =
                    month @ ''-'' @ (if length day = 1 then CHR ''0'' # day else day)) \<and>
               (\<forall>x y. match_record month
                  (day1, x, y, day2, v_fajr, v_sunrise, v_dhuhr, v_asr, v_maghrib, v_isha) =
                  Inr (?ps ! k))"
  proof (intro allI impI)
    fix k assume "k < length ?ps"
    then have k: "k < length (scan pattern 0 text)" by simp
    from extract_nth[OF k, of month] obtain b e g where
      g: "(b, e, g) \<in> set (scan pattern 0 text)" "findall text ! k = groups g"
         "?ps ! k = record_of month g" by blast
    from scan_pattern_caps[OF g(1)] have ok: "caps_ok g" by simp
    let ?day = "if group g 1 \<noteq> [] then group g 1 else group g 4"
    have one: "group g 1 = [] \<or> group g 4 = []" using caps_ok_day[OF ok] by blast
    have ds: "day_shape ?day" using caps_ok_day[OF ok] by (auto simp: day_shape_def)
    have dt: "date (record_of month g) = month @ ''-'' @ pad2 ?day"
      by (simp add: record_of_def)
    have m: "match_record month (group g 1, x, y, group g 4, group g 5, group g 6, group g 7,
               group g 8, group g 9, group g 10) = Inr (record_of month g)" for x y
      using match_record_ok[OF ok, of month]
        match_record_months[of month "group g 1" x y "group g 4" "group g 5" "group g 6"
          "group g 7" "group g 8" "group g 9" "group g 10" "group g 2" "group g 3"]
      by (simp add: groups_def)
    show "case findall text ! k of
             (day1, u1, u2, day2, v_fajr, v_sunrise, v_dhuhr, v_asr, v_maghrib, v_isha) \<Rightarrow>
               (day1 = [] \<or> day2 = []) \<and>
               (let day = (if day1 \<noteq> [] then day1 else day2) in
                  day \<noteq> [] \<and> length day \<le> 2 \<and> (\<forall>c \<in> set day. isdigit c) \<and>
                  date (?ps ! k) =
                    month @ ''-'' @ (if length day = 1 then CHR ''0'' # day else day)) \<and>
               (\<forall>x y. match_record month
                  (day1, x, y, day2, v_fajr, v_sunrise, v_dhuhr, v_asr, v_maghrib, v_isha) =
                  Inr (?ps ! k))"
      unfolding g(2,3) groups_def prod.case Let_def
      using one ds dt m unfolding day_shape_def pad2_def by auto
  qed
  from a b c show ?thesis by blast
qed

lemma scenario4_findall:
  "findall ''3-Mar 5:00AM 6:15AM 12:30PM 3:45PM 6:30PM 7:45PM'' =
     [(''3'', ''Mar'', '''', '''', ''5:00AM'', ''6:15AM'', ''12:30PM'', ''3:45PM'',
       ''6:30PM'', ''7:45PM'')]"
  by code_simp

text \<open>
  The text names March, the caller says month \<open>07\<close>: the date is \<open>07-03\<close>.
\<close>

theorem fallback_date_format_witness:
  "extract_from_text_pattern ''3-Mar 5:00AM 6:15AM 12:30PM 3:45PM 6:30PM 7:45PM'' ''07'' =
     Inr [\<lparr>date = ''07-03'', fajr = ''5:00AM'', sunrise = ''6:15AM'', dhuhr = ''12:30PM'',
           asr = ''3:45PM'', maghrib = ''6:30PM'', isha = ''7:45PM''\<rparr>]"
proof -
  let ?text = "''3-Mar 5:00AM 6:15AM 12:30PM 3:45PM 6:30PM 7:45PM''"
  let ?p = "\<lparr>date = ''07-03'', fajr = ''5:00AM'', sunrise = ''6:15AM'', dhuhr = ''12:30PM'',
           asr = ''3:45PM'', maghrib = ''6:30PM'', isha = ''7:45PM''\<rparr>"
  from fallback_date_format[of ?text "''07''"] obtain ps where
    ps: "extract_from_text_pattern ?text ''07'' = Inr ps" "length ps = length (findall ?text)"
    and all: "\<forall>k < length ps.
           case findall ?text ! k of
             (day1, u1, u2, day2, v_fajr, v_sunrise, v_dhuhr, v_asr, v_maghrib, v_isha) \<Rightarrow>
               (day1 = [] \<or> day2 = []) \<and>
               (let day = (if day1 \<noteq> [] then day1 else day2) in
                  day \<noteq> [] \<and> length day \<le> 2 \<and> (\<forall>c \<in> set day. isdigit c) \<and>
                  date (ps ! k) =
                    ''07'' @ ''-'' @ (if length day = 1 then CHR ''0'' # day else day)) \<and>
               (\<forall>x y. match_record ''07''
                  (day1, x, y, day2, v_fajr, v_sunrise, v_dhuhr, v_asr, v_maghrib, v_isha) =
                  Inr (ps ! k))"
    by blast
  have len: "length ps = 1" using ps(2) by (simp add: scenario4_findall)
  then have "0 < length ps" by simp
  with all have m: "match_record ''07'' (''3'', ''Dec'', '''', '''', ''5:00AM'', ''6:15AM'',
      ''12:30PM'', ''3:45PM'', ''6:30PM'', ''7:45PM'') = Inr (ps ! 0)"
    by (auto simp: scenario4_findall)
  have "match_record ''07'' (''3'', ''Dec'', '''', '''', ''5:00AM'', ''6:15AM'',
      ''12:30PM'', ''3:45PM'', ''6:30PM'', ''7:45PM'') = Inr ?p"
    by code_simp
  with m have "ps ! 0 = ?p" by simp
  with len have "ps = [?p]" by (cases ps) auto
  with ps(1) show ?thesis by simp
qed

text \<open>
  Claim C10. In every record of \<open>extract_from_text_pattern\<close> a non-empty isha field
  comes with a non-empty maghrib field: a single trailing time token is bound to group 9.
\<close>

theorem isha_implies_maghrib:
  "\<exists>ps. extract_from_text_pattern text month = Inr ps \<and>
        (\<forall>p \<in> set ps. isha p \<noteq> [] \<longrightarrow> maghrib p \<noteq> [])"
proof -
  let ?ps = "map (\<lambda>(b, e, g). record_of month g) (scan pattern 0 text)"
  have a: "extract_from_text_pattern text month = Inr ?ps" by (rule extract_eq)
  have "\<forall>p \<in> set ?ps. isha p \<noteq> [] \<longrightarrow> maghrib p \<noteq> []"
  proof
    fix p assume "p \<in> set ?ps"
    then obtain b e g where g: "(b, e, g) \<in> set (scan pattern 0 text)" "p = record_of month g"
      by auto
    from scan_pattern_caps[OF g(1)] have "group g 10 \<noteq> [] \<longrightarrow> group g 9 \<noteq> []" by simp
    then show "isha p \<noteq> [] \<longrightarrow> maghrib p \<noteq> []" unfolding g(2) by (simp add: record_of_def)
  qed
  with a show ?thesis by blast
qed

text \<open>
  Two lines of text: the first record has both maghrib and isha, the second one, with a
  single trailing token, has maghrib only.
\<close>

theorem isha_implies_maghrib_witness:
  "\<exists>ps. extract_from_text_pattern ''Mar-5 5:00AM 6:15AM 12:30PM 3:45PM 6:30PM 7:45PM 6-Mar 5:01AM 6:16AM 12:31PM 3:46PM 6:31PM'' ''03'' = Inr ps \<and>
        isha (ps ! 0) = ''7:45PM'' \<and> maghrib (ps ! 0) \<noteq> [] \<and>
        isha (ps ! 1) = [] \<and> maghrib (ps ! 1) = ''6:31PM'' \<and> length ps = 2"
proof -
  let ?text = "''Mar-5 5:00AM 6:15AM 12:30PM 3:45PM 6:30PM 7:45PM 6-Mar 5:01AM 6:16AM 12:31PM 3:46PM 6:31PM''"
  have ev: "extract_from_text_pattern ?text ''03'' =
     Inr [\<lparr>date = ''03-05'', fajr = ''5:00AM'', sunrise = ''6:15AM'', dhuhr = ''12:30PM'',
           asr = ''3:45PM'', maghrib = ''6:30PM'', isha = ''7:45PM''\<rparr>,
          \<lparr>date = ''03-06'', fajr = ''5:01AM'', sunrise = ''6:16AM'', dhuhr = ''12:31PM'',
           asr = ''3:46PM'', maghrib = ''6:31PM'', isha = ''''\<rparr>]"
    by code_simp
  from isha_implies_maghrib[of ?text "''03''"] obtain ps where
    ps: "extract_from_text_pattern ?text ''03'' = Inr ps"
    and imp: "\<forall>p \<in> set ps. isha p \<noteq> [] \<longrightarrow> maghrib p \<noteq> []" by blast
  from ps ev have eq: "ps = [\<lparr>date = ''03-05'', fajr = ''5:00AM'', sunrise = ''6:15AM'',
           dhuhr = ''12:30PM'', asr = ''3:45PM'', maghrib = ''6:30PM'', isha = ''7:45PM''\<rparr>,
          \<lparr>date = ''03-06'', fajr = ''5:01AM'', sunrise = ''6:16AM'', dhuhr = ''12:31PM'',
           asr = ''3:46PM'', maghrib = ''6:31PM'', isha = ''''\<rparr>]" by simp
  then have i0: "isha (ps ! 0) = ''7:45PM''" and mem: "ps ! 0 \<in> set ps" by simp_all
  from imp mem i0 have "maghrib (ps ! 0) \<noteq> []" by simp
  with ps i0 eq show ?thesis by simp
qed

lemma piece_of_set: "piece_of v u \<Longrightarrow> set v \<subseteq> set u"
  unfolding piece_of_def by auto

lemma record_fields_shape:
  assumes "(b, e, g) \<in> set (scan pattern 0 text)"
  shows "time_shape (fajr (record_of month g)) \<and> time_shape (sunrise (record_of month g)) \<and>
         time_shape (dhuhr (record_of month g)) \<and> time_shape (asr (record_of month g)) \<and>
         (maghrib (record_of month g) = [] \<or> time_shape (maghrib (record_of month g))) \<and>
         (isha (record_of month g) = [] \<or> time_shape (isha (record_of month g)))"
proof -
  from scan_pattern_caps[OF assms] have ok: "caps_ok g" by simp
  from caps_ok_times[OF ok] caps_ok_opt[OF ok] show ?thesis by (simp add: record_of_def)
qed

text \<open>
  Claim C3, as the code has it. A time token is one or two digits, a colon, two digits,
  optional whitespace and then a letter \<open>A\<close> or \<open>P\<close> in either case, which is not
  optional; only the \<open>M\<close> after it is. Every time field of every record has this shape
  (maghrib and isha when they are not empty), and a text without any of the letters
  \<open>A\<close>, \<open>P\<close>, \<open>a\<close>, \<open>p\<close> yields no record.
\<close>

theorem time_token_letter_mandatory:
  "\<exists>ps. extract_from_text_pattern text month = Inr ps \<and>
        (\<forall>p \<in> set ps.
           time_shape (fajr p) \<and> time_shape (sunrise p) \<and> time_shape (dhuhr p) \<and>
           time_shape (asr p) \<and> (maghrib p = [] \<or> time_shape (maghrib p)) \<and>
           (isha p = [] \<or> time_shape (isha p))) \<and>
        ((\<forall>c \<in> set text. c \<notin> set ''APap'') \<longrightarrow> ps = [])"
proof -
  let ?ps = "map (\<lambda>(b, e, g). record_of month g) (scan pattern 0 text)"
  have a: "extract_from_text_pattern text month = Inr ?ps" by (rule extract_eq)
  have b: "\<forall>p \<in> set ?ps.
           time_shape (fajr p) \<and> time_shape (sunrise p) \<and> time_shape (dhuhr p) \<and>
           time_shape (asr p) \<and> (maghrib p = [] \<or> time_shape (maghrib p)) \<and>
           (isha p = [] \<or> time_shape (isha p))"
  proof
    fix p assume "p \<in> set ?ps"
    then obtain b e g where g: "(b, e, g) \<in> set (scan pattern 0 text)" "p = record_of month g"
      by auto
    from record_fields_shape[OF g(1), of month] show
      "time_shape (fajr p) \<and> time_shape (sunrise p) \<and> time_shape (dhuhr p) \<and>
           time_shape (asr p) \<and> (maghrib p = [] \<or> time_shape (maghrib p)) \<and>
           (isha p = [] \<or> time_shape (isha p))"
      unfolding g(2) .
  qed
  have c: "(\<forall>c \<in> set text. c \<notin> set ''APap'') \<longrightarrow> ?ps = []"
  proof
    assume no: "\<forall>c \<in> set text. c \<notin> set ''APap''"
    show "?ps = []"
    proof (rule ccontr)
      assume "?ps \<noteq> []"
      then obtain x where x: "x \<in> set (scan pattern 0 text)"
        by (cases "scan pattern 0 text") auto
      obtain b e g where xx: "x = (b, e, g)" by (cases x)
      from scan_pattern_caps[of b e g "text"] x xx have ok: "caps_ok g"
        and pc: "\<forall>v \<in> snd ` set g. piece_of v text" by simp_all
      from caps_ok_times[OF ok] have ts: "time_shape (group g 5)" by simp
      from time_shape_nonempty[OF ts] have "group g 5 \<noteq> []" .
      from group_piece[OF pc this] have "set (group g 5) \<subseteq> set text" by (rule piece_of_set)
      moreover from time_shape_letter[OF ts] obtain c where
        "c \<in> set (group g 5)" "c \<in> set ''APap''" by blast
      ultimately show False using no by blast
    qed
  qed
  from a b c show ?thesis by blast
qed

text \<open>
  Claim C3 as stated fails: a day marker followed by four time tokens without any
  suffix gives no record.
\<close>

theorem suffixless_tokens_counterexample:
  "extract_from_text_pattern ''3-Mar 5:00 6:15 12:30 3:45'' ''03'' = Inr []"
  by code_simp

text \<open>
  A text with no \<open>A\<close> or \<open>P\<close> at all gives nothing; with the letter alone, with
  a blank before it, and with \<open>PM\<close> in either case, the tokens are accepted.
\<close>

theorem time_token_letter_mandatory_witness:
  "extract_from_text_pattern ''3-Jun 5:00 6:15 12:30 3:45'' ''06'' = Inr [] \<and>
   (\<exists>ps. extract_from_text_pattern ''3-Jun 5:00A 6:15 a 12:30PM 3:45pm'' ''06'' = Inr ps \<and>
         ps \<noteq> [] \<and> fajr (ps ! 0) = ''5:00A'' \<and> time_shape (fajr (ps ! 0)))"
proof -
  let ?t1 = "''3-Jun 5:00 6:15 12:30 3:45''"
  let ?t2 = "''3-Jun 5:00A 6:15 a 12:30PM 3:45pm''"
  have no: "\<forall>c \<in> set ?t1. c \<notin> set ''APap''" by simp
  from time_token_letter_mandatory[of ?t1 "''06''"] no
  have one: "extract_from_text_pattern ?t1 ''06'' = Inr []" by auto
  have ev: "extract_from_text_pattern ?t2 ''06'' =
     Inr [\<lparr>date = ''06-03'', fajr = ''5:00A'', sunrise = ''6:15 a'', dhuhr = ''12:30PM'',
           asr = ''3:45pm'', maghrib = '''', isha = ''''\<rparr>]"
    by code_simp
  from time_token_letter_mandatory[of ?t2 "''06''"] obtain ps where
    ps: "extract_from_text_pattern ?t2 ''06'' = Inr ps"
    and sh: "\<forall>p \<in> set ps. time_shape (fajr p)" by blast
  from ps ev have eq: "ps = [\<lparr>date = ''06-03'', fajr = ''5:00A'', sunrise = ''6:15 a'',
           dhuhr = ''12:30PM'', asr = ''3:45pm'', maghrib = '''', isha = ''''\<rparr>]" by simp
  then have ne: "ps \<noteq> []" and f: "fajr (ps ! 0) = ''5:00A''" and mem: "ps ! 0 \<in> set ps"
    by simp_all
  from sh mem have "time_shape (fajr (ps ! 0))" by blast
  with one ps ne f show ?thesis by blast
qed

lemma piece_of_Nil: "piece_of [] u"
  unfolding piece_of_def by (metis append_Nil)

lemma strip_Nil: "strip [] = []"
  by (simp add: strip_def)

lemma group_piece_any:
  assumes "\<forall>v \<in> snd ` set g. piece_of v text"
  shows "piece_of (group g i) text"
  using group_piece[OF assms] piece_of_Nil by (cases "group g i = []") auto

lemma table_record_source:
  assumes "q \<in> set (parse_table_rows clean_time parse_date t month)"
  shows "\<exists>r \<in> set t. parse_single_row clean_time parse_date r month = Some q"
proof -
  from assms obtain h where h: "find_header_row t = Some h"
    by (cases "find_header_row t") (auto simp: parse_table_rows_no_header)
  with assms have "q \<in> set (List.map_filter (\<lambda>r. parse_single_row clean_time parse_date r month)
                 (drop (Suc h) t))"
    by (simp add: parse_table_rows_header split: if_splits)
  then obtain r where "r \<in> set (drop (Suc h) t)"
    "parse_single_row clean_time parse_date r month = Some q"
    by (auto simp: List.map_filter_def)
  then show ?thesis using in_set_dropD by fast
qed

text \<open>
  Claim C4, as the code has it. The date resolver and the time cleaner are called by the
  table path: the date and the six time fields of every record of \<open>parse_table_rows\<close>
  are what the two collaborators returned on the cells of a row of the table. The
  fallback path does not call them: each time field of a record of
  \<open>extract_from_text_pattern\<close> is a piece of the text as it stands, with no whitespace
  at its ends, and the date is the month, a hyphen and a day of one or two digits taken
  from the text and padded with a zero.
\<close>

theorem helpers_only_in_table_path:
  "(\<forall>q \<in> set (parse_table_rows clean_time parse_date t month).
      \<exists>r \<in> set t.
        parse_date (date_token (r ! 0)) month = Inr (Some (date q)) \<and>
        clean_time (str_or_empty (r ! 1)) = Inr (fajr q) \<and>
        clean_time (str_or_empty (r ! 2)) = Inr (sunrise q) \<and>
        clean_time (str_or_empty (r ! 3)) = Inr (dhuhr q) \<and>
        clean_time (str_or_empty (r ! 4)) = Inr (asr q) \<and>
        clean_time (str_or_empty (r ! 5)) = Inr (maghrib q) \<and>
        clean_time (str_or_empty (r ! 6)) = Inr (isha q)) \<and>
   (\<exists>ps. extract_from_text_pattern text month = Inr ps \<and>
      (\<forall>p \<in> set ps.
         piece_of (fajr p) text \<and> strip (fajr p) = fajr p \<and>
         piece_of (sunrise p) text \<and> strip (sunrise p) = sunrise p \<and>
         piece_of (dhuhr p) text \<and> strip (dhuhr p) = dhuhr p \<and>
         piece_of (asr p) text \<and> strip (asr p) = asr p \<and>
         piece_of (maghrib p) text \<and> strip (maghrib p) = maghrib p \<and>
         piece_of (isha p) text \<and> strip (isha p) = isha p \<and>
         (\<exists>day. piece_of day text \<and> day \<noteq> [] \<and> length day \<le> 2 \<and>
            (\<forall>c \<in> set day. isdigit c) \<and>
            date p = month @ ''-'' @ (if length day = 1 then CHR ''0'' # day else day))))"
proof
  show "\<forall>q \<in> set (parse_table_rows clean_time parse_date t month).
      \<exists>r \<in> set t.
        parse_date (date_token (r ! 0)) month = Inr (Some (date q)) \<and>
        clean_time (str_or_empty (r ! 1)) = Inr (fajr q) \<and>
        clean_time (str_or_empty (r ! 2)) = Inr (sunrise q) \<and>
        clean_time (str_or_empty (r ! 3)) = Inr (dhuhr q) \<and>
        clean_time (str_or_empty (r ! 4)) = Inr (asr q) \<and>
        clean_time (str_or_empty (r ! 5)) = Inr (maghrib q) \<and>
        clean_time (str_or_empty (r ! 6)) = Inr (isha q)"
  proof
    fix q assume "q \<in> set (parse_table_rows clean_time parse_date t month)"
    from table_record_source[OF this] obtain r where r: "r \<in> set t"
      "parse_single_row clean_time parse_date r month = Some q" by blast
    from try_body_Some[OF parse_single_row_Some[OF r(2)]] r(1)
    show "\<exists>r \<in> set t.
        parse_date (date_token (r ! 0)) month = Inr (Some (date q)) \<and>
        clean_time (str_or_empty (r ! 1)) = Inr (fajr q) \<and>
        clean_time (str_or_empty (r ! 2)) = Inr (sunrise q) \<and>
        clean_time (str_or_empty (r ! 3)) = Inr (dhuhr q) \<and>
        clean_time (str_or_empty (r ! 4)) = Inr (asr q) \<and>
        clean_time (str_or_empty (r ! 5)) = Inr (maghrib q) \<and>
        clean_time (str_or_empty (r ! 6)) = Inr (isha q)"
      by blast
  qed
next
  let ?ps = "map (\<lambda>(b, e, g). record_of month g) (scan pattern 0 text)"
  have a: "extract_from_text_pattern text month = Inr ?ps" by (rule extract_eq)
  have b: "\<forall>p \<in> set ?ps.
         piece_of (fajr p) text \<and> strip (fajr p) = fajr p \<and>
         piece_of (sunrise p) text \<and> strip (sunrise p) = sunrise p \<and>
         piece_of (dhuhr p) text \<and> strip (dhuhr p) = dhuhr p \<and>
         piece_of (asr p) text \<and> strip (asr p) = asr p \<and>
         piece_of (maghrib p) text \<and> strip (maghrib p) = maghrib p \<and>
         piece_of (isha p) text \<and> strip (isha p) = isha p \<and>
         (\<exists>day. piece_of day text \<and> day \<noteq> [] \<and> length day \<le> 2 \<and>
            (\<forall>c \<in> set day. isdigit c) \<and>
            date p = month @ ''-'' @ (if length day = 1 then CHR ''0'' # day else day))"
  proof
    fix p assume "p \<in> set ?ps"
    then obtain b e g where g: "(b, e, g) \<in> set (scan pattern 0 text)" "p = record_of month g"
      by auto
    from scan_pattern_caps[OF g(1)] have ok: "caps_ok g"
      and pc: "\<forall>v \<in> snd ` set g. piece_of v text" by simp_all
    note pieces = group_piece_any[OF pc]
    have s4: "strip (group g 5) = group g 5" "strip (group g 6) = group g 6"
      "strip (group g 7) = group g 7" "strip (group g 8) = group g 8"
      using caps_ok_times[OF ok] time_shape_strip by blast+
    have s9: "strip (group g 9) = group g 9" "strip (group g 10) = group g 10"
      using caps_ok_opt[OF ok] time_shape_strip strip_Nil by auto
    let ?day = "if group g 1 \<noteq> [] then group g 1 else group g 4"
    have ds: "day_shape ?day" using caps_ok_day[OF ok] by (auto simp: day_shape_def)
    have dp: "piece_of ?day text" using pieces by simp
    have "\<exists>day. piece_of day text \<and> day \<noteq> [] \<and> length day \<le> 2 \<and>
            (\<forall>c \<in> set day. isdigit c) \<and>
            date p = month @ ''-'' @ (if length day = 1 then CHR ''0'' # day else day)"
    proof (intro exI[of _ ?day] conjI)
      show "piece_of ?day text" by (rule dp)
      show "?day \<noteq> []" "length ?day \<le> 2" "\<forall>c \<in> set ?day. isdigit c"
        using ds by (simp_all add: day_shape_def)
      show "date p = month @ ''-'' @ (if length ?day = 1 then CHR ''0'' # ?day else ?day)"
        unfolding g(2) by (simp add: record_of_def pad2_def)
    qed
    then show "piece_of (fajr p) text \<and> strip (fajr p) = fajr p \<and>
         piece_of (sunrise p) text \<and> strip (sunrise p) = sunrise p \<and>
         piece_of (dhuhr p) text \<and> strip (dhuhr p) = dhuhr p \<and>
         piece_of (asr p) text \<and> strip (asr p) = asr p \<and>
         piece_of (maghrib p) text \<and> strip (maghrib p) = maghrib p \<and>
         piece_of (isha p) text \<and> strip (isha p) = isha p \<and>
         (\<exists>day. piece_of day text \<and> day \<noteq> [] \<and> length day \<le> 2 \<and>
            (\<forall>c \<in> set day. isdigit c) \<and>
            date p = month @ ''-'' @ (if length day = 1 then CHR ''0'' # day else day))"
      using pieces s4 s9 unfolding g(2) by (simp add: record_of_def)
  qed
  from a b show "\<exists>ps. extract_from_text_pattern text month = Inr ps \<and>
      (\<forall>p \<in> set ps.
         piece_of (fajr p) text \<and> strip (fajr p) = fajr p \<and>
         piece_of (sunrise p) text \<and> strip (sunrise p) = sunrise p \<and>
         piece_of (dhuhr p) text \<and> strip (dhuhr p) = dhuhr p \<and>
         piece_of (asr p) text \<and> strip (asr p) = asr p \<and>
         piece_of (maghrib p) text \<and> strip (maghrib p) = maghrib p \<and>
         piece_of (isha p) text \<and> strip (isha p) = isha p \<and>
         (\<exists>day. piece_of day text \<and> day \<noteq> [] \<and> length day \<le> 2 \<and>
            (\<forall>c \<in> set day. isdigit c) \<and>
            date p = month @ ''-'' @ (if length day = 1 then CHR ''0'' # day else day)))"
    by blast
qed

text \<open>
  Claim C4 as stated fails: with a time cleaner that answers the empty string and a date
  resolver that answers \<open>None\<close>, the fallback path still emits a record with a fajr
  value and a date, which are therefore not results of the collaborators.
\<close>

theorem fallback_bypasses_helpers_counterexample:
  "\<not> (\<forall>(clean_time :: time_cleaner) (parse_date :: date_parser) ps.
        extract_from_text_pattern ''3-Mar 5:00AM 6:15AM 12:30PM 3:45PM'' ''03'' = Inr ps \<longrightarrow>
        (\<forall>p \<in> set ps. (\<exists>tok. clean_time tok = Inr (fajr p)) \<and>
                       (\<exists>tok. parse_date tok ''03'' = Inr (Some (date p)))))"
proof
  let ?text = "''3-Mar 5:00AM 6:15AM 12:30PM 3:45PM''"
  let ?p = "\<lparr>date = ''03-03'', fajr = ''5:00AM'', sunrise = ''6:15AM'', dhuhr = ''12:30PM'',
            asr = ''3:45PM'', maghrib = '''', isha = ''''\<rparr>"
  assume all: "\<forall>(clean_time :: time_cleaner) (parse_date :: date_parser) ps.
        extract_from_text_pattern ?text ''03'' = Inr ps \<longrightarrow>
        (\<forall>p \<in> set ps. (\<exists>tok. clean_time tok = Inr (fajr p)) \<and>
                       (\<exists>tok. parse_date tok ''03'' = Inr (Some (date p))))"
  have ev: "extract_from_text_pattern ?text ''03'' = Inr [?p]" by code_simp
  from all[rule_format, of "[?p]" ?p "\<lambda>s. Inr []" "\<lambda>d m. Inr None"] ev
  have "\<exists>tok. (\<lambda>s. Inr []) tok = (Inr (fajr ?p) :: exn + string)" by simp
  then show False by simp
qed

text \<open>
  A cleaner that puts a token in upper case: the table path gives \<open>5:00 AM\<close> for the
  cell \<open>5:00 am\<close>, the fallback path gives the text \<open>5:00 am\<close> itself.
\<close>

theorem helpers_only_in_table_path_witness:
  "parse_table_rows (\<lambda>s. Inr (upper (strip s))) (\<lambda>d m. Inr (Some (m @ ''-0'' @ d)))
     [[Some ''DATE'', Some ''FAJR'', Some ''SUNRISE'', Some ''DHUHR'', Some ''ASR'',
       Some ''MAGHRIB'', Some ''ISHA''],
      [Some ''3'', Some ''5:00 am'', Some ''6:15 am'', Some ''12:30 pm'', Some ''3:45 pm'',
       Some ''6:30 pm'', Some ''7:45 pm'']] ''03'' =
     [\<lparr>date = ''03-03'', fajr = ''5:00 AM'', sunrise = ''6:15 AM'', dhuhr = ''12:30 PM'',
       asr = ''3:45 PM'', maghrib = ''6:30 PM'', isha = ''7:45 PM''\<rparr>] \<and>
   (\<exists>r \<in> set [[Some ''DATE'', Some ''FAJR'', Some ''SUNRISE'', Some ''DHUHR'', Some ''ASR'',
                 Some ''MAGHRIB'', Some ''ISHA''],
                [Some ''3'', Some ''5:00 am'', Some ''6:15 am'', Some ''12:30 pm'',
                 Some ''3:45 pm'', Some ''6:30 pm'', Some ''7:45 pm'']].
      (\<lambda>s. Inr (upper (strip s))) (str_or_empty (r ! 1)) = (Inr ''5:00 AM'' :: exn + string)) \<and>
   extract_from_text_pattern ''3-Mar 5:00 am 6:15 am 12:30 pm 3:45 pm 6:30 pm 7:45 pm'' ''03'' =
     Inr [\<lparr>date = ''03-03'', fajr = ''5:00 am'', sunrise = ''6:15 am'', dhuhr = ''12:30 pm'',
           asr = ''3:45 pm'', maghrib = ''6:30 pm'', isha = ''7:45 pm''\<rparr>] \<and>
   piece_of ''5:00 am'' ''3-Mar 5:00 am 6:15 am 12:30 pm 3:45 pm 6:30 pm 7:45 pm''"
proof -
  let ?ct = "(\<lambda>s. Inr (upper (strip s))) :: time_cleaner"
  let ?pd = "(\<lambda>d m. Inr (Some (m @ ''-0'' @ d))) :: date_parser"
  let ?t = "[[Some ''DATE'', Some ''FAJR'', Some ''SUNRISE'', Some ''DHUHR'', Some ''ASR'',
       Some ''MAGHRIB'', Some ''ISHA''],
      [Some ''3'', Some ''5:00 am'', Some ''6:15 am'', Some ''12:30 pm'', Some ''3:45 pm'',
       Some ''6:30 pm'', Some ''7:45 pm'']]"
  let ?q = "\<lparr>date = ''03-03'', fajr = ''5:00 AM'', sunrise = ''6:15 AM'', dhuhr = ''12:30 PM'',
       asr = ''3:45 PM'', maghrib = ''6:30 PM'', isha = ''7:45 PM''\<rparr>"
  let ?text = "''3-Mar 5:00 am 6:15 am 12:30 pm 3:45 pm 6:30 pm 7:45 pm''"
  let ?p = "\<lparr>date = ''03-03'', fajr = ''5:00 am'', sunrise = ''6:15 am'', dhuhr = ''12:30 pm'',
           asr = ''3:45 pm'', maghrib = ''6:30 pm'', isha = ''7:45 pm''\<rparr>"
  have ev1: "parse_table_rows ?ct ?pd ?t ''03'' = [?q]" by code_simp
  have ev2: "extract_from_text_pattern ?text ''03'' = Inr [?p]" by code_simp
  note inst = helpers_only_in_table_path[of ?ct ?pd ?t "''03''" ?text]
  from inst have tab: "\<forall>q \<in> set (parse_table_rows ?ct ?pd ?t ''03'').
      \<exists>r \<in> set ?t. ?ct (str_or_empty (r ! 1)) = Inr (fajr q)" by blast
  have "?q \<in> set (parse_table_rows ?ct ?pd ?t ''03'')" unfolding ev1 by simp
  with tab have "\<exists>r \<in> set ?t. ?ct (str_or_empty (r ! 1)) = Inr (fajr ?q)" by blast
  then have a: "\<exists>r \<in> set ?t. ?ct (str_or_empty (r ! 1)) = (Inr ''5:00 AM'' :: exn + string)"
    by simp
  from inst obtain ps where ps: "extract_from_text_pattern ?text ''03'' = Inr ps"
    and pc: "\<forall>p \<in> set ps. piece_of (fajr p) ?text" by blast
  from ps ev2 have "ps = [?p]" by simp
  with pc have b: "piece_of ''5:00 am'' ?text" by simp
  show ?thesis by (rule conjI[OF ev1 conjI[OF a conjI[OF ev2 b]]])
qed

text \<open>
  Claim C9. The records of \<open>parse_table_rows\<close> are those of the accepted rows after
  the header, in the order of the rows, with nothing sorted or dropped as a duplicate.
  The records of \<open>extract_from_text_pattern\<close> are those of the matches found by the
  scan, one by one in its order; the spans of the matches are non-empty, each is the
  first match of the pattern at its start, each ends before the next starts, and every
  position at which the pattern matches lies inside one of them.
\<close>

theorem order_preservation:
  "(find_header_row t = Some h \<longrightarrow>
      parse_table_rows clean_time parse_date t month =
        map (\<lambda>r. the (parse_single_row clean_time parse_date r month))
          (filter (\<lambda>r. parse_single_row clean_time parse_date r month \<noteq> None)
             (drop (Suc h) t))) \<and>
   (\<exists>ps. extract_from_text_pattern text month = Inr ps \<and>
      length ps = length (scan pattern 0 text) \<and>
      (\<forall>k < length ps.
         match_record month (groups (snd (snd (scan pattern 0 text ! k)))) = Inr (ps ! k)) \<and>
      sorted_wrt (\<lambda>x y. fst (snd x) \<le> fst y) (scan pattern 0 text) \<and>
      (\<forall>(b, e, g) \<in> set (scan pattern 0 text).
         b < e \<and> e \<le> length text \<and> rmatch pattern (drop b text, []) \<noteq> [] \<and>
         hd (rmatch pattern (drop b text, [])) = (drop e text, g)) \<and>
      (\<forall>p \<le> length text. rmatch pattern (drop p text, []) \<noteq> [] \<longrightarrow>
         (\<exists>x \<in> set (scan pattern 0 text). fst x \<le> p \<and> p < fst (snd x))))"
proof
  show "find_header_row t = Some h \<longrightarrow>
      parse_table_rows clean_time parse_date t month =
        map (\<lambda>r. the (parse_single_row clean_time parse_date r month))
          (filter (\<lambda>r. parse_single_row clean_time parse_date r month \<noteq> None)
             (drop (Suc h) t))"
  proof
    assume h: "find_header_row t = Some h"
    from find_header_row_Some[OF h] have "h < length t" by simp
    then have short: "length t < 2 \<Longrightarrow> drop (Suc h) t = []" by simp
    show "parse_table_rows clean_time parse_date t month =
        map (\<lambda>r. the (parse_single_row clean_time parse_date r month))
          (filter (\<lambda>r. parse_single_row clean_time parse_date r month \<noteq> None)
             (drop (Suc h) t))"
      using parse_table_rows_header[OF h, of clean_time parse_date month] short
      by (auto simp: List.map_filter_def comp_def)
  qed
next
  let ?ms = "scan pattern 0 text"
  let ?ps = "map (\<lambda>(b, e, g). record_of month g) ?ms"
  have a: "extract_from_text_pattern text month = Inr ?ps" by (rule extract_eq)
  have b: "length ?ps = length ?ms" by simp
  have c: "\<forall>k < length ?ps. match_record month (groups (snd (snd (?ms ! k)))) = Inr (?ps ! k)"
  proof (intro allI impI)
    fix k assume "k < length ?ps"
    then have k: "k < length ?ms" by simp
    from extract_nth[OF k, of month] obtain b e g where
      g: "?ms ! k = (b, e, g)" "(b, e, g) \<in> set ?ms" "?ps ! k = record_of month g" by blast
    from scan_pattern_caps[OF g(2)] have "caps_ok g" by simp
    from match_record_ok[OF this, of month] show
      "match_record month (groups (snd (snd (?ms ! k)))) = Inr (?ps ! k)"
      unfolding g(1,3) by simp
  qed
  have d: "sorted_wrt (\<lambda>x y. fst (snd x) \<le> fst y) ?ms"
    using scan_sorted[OF consuming_pattern] .
  have e: "\<forall>(b, e, g) \<in> set ?ms.
         b < e \<and> e \<le> length text \<and> rmatch pattern (drop b text, []) \<noteq> [] \<and>
         hd (rmatch pattern (drop b text, [])) = (drop e text, g)"
    using scan_first[OF consuming_pattern] by blast
  have f: "\<forall>p \<le> length text. rmatch pattern (drop p text, []) \<noteq> [] \<longrightarrow>
         (\<exists>x \<in> set ?ms. fst x \<le> p \<and> p < fst (snd x))"
    using scan_covers[OF consuming_pattern, of "text" 0 "text"] by simp
  from a b c d e f show "\<exists>ps. extract_from_text_pattern text month = Inr ps \<and>
      length ps = length (scan pattern 0 text) \<and>
      (\<forall>k < length ps.
         match_record month (groups (snd (snd (scan pattern 0 text ! k)))) = Inr (ps ! k)) \<and>
      sorted_wrt (\<lambda>x y. fst (snd x) \<le> fst y) (scan pattern 0 text) \<and>
      (\<forall>(b, e, g) \<in> set (scan pattern 0 text).
         b < e \<and> e \<le> length text \<and> rmatch pattern (drop b text, []) \<noteq> [] \<and>
         hd (rmatch pattern (drop b text, [])) = (drop e text, g)) \<and>
      (\<forall>p \<le> length text. rmatch pattern (drop p text, []) \<noteq> [] \<longrightarrow>
         (\<exists>x \<in> set (scan pattern 0 text). fst x \<le> p \<and> p < fst (snd x)))"
    by blast
qed

text \<open>
  A table whose rows are dated 2 and 1, with a rejected row between them, keeps that
  order; a text with two day entries gives its two records in textual order.
\<close>

theorem order_preservation_witness:
  "find_header_row
     [[Some ''DATE'', Some ''FAJR'', Some ''SUNRISE'', Some ''DHUHR'', Some ''ASR'',
       Some ''MAGHRIB'', Some ''ISHA''],
      [Some ''2'', Some ''5:01 AM'', Some ''6:16 AM'', Some ''12:31 PM'', Some ''3:46 PM'',
       Some ''6:31 PM'', Some ''7:46 PM''],
      [Some ''Total'', None, None, None, None, None, None],
      [Some ''1'', Some ''5:00 AM'', Some ''6:15 AM'', Some ''12:30 PM'', Some ''3:45 PM'',
       Some ''6:30 PM'', Some ''7:45 PM'']] = Some 0 \<and>
   map date (parse_table_rows (\<lambda>s. Inr (strip s)) (\<lambda>d m. Inr (Some (m @ ''-0'' @ d)))
     [[Some ''DATE'', Some ''FAJR'', Some ''SUNRISE'', Some ''DHUHR'', Some ''ASR'',
       Some ''MAGHRIB'', Some ''ISHA''],
      [Some ''2'', Some ''5:01 AM'', Some ''6:16 AM'', Some ''12:31 PM'', Some ''3:46 PM'',
       Some ''6:31 PM'', Some ''7:46 PM''],
      [Some ''Total'', None, None, None, None, None, None],
      [Some ''1'', Some ''5:00 AM'', Some ''6:15 AM'', Some ''12:30 PM'', Some ''3:45 PM'',
       Some ''6:30 PM'', Some ''7:45 PM'']] ''03'') = [''03-02'', ''03-01''] \<and>
   (\<exists>ps. extract_from_text_pattern
           ''Mar-5 5:00AM 6:15AM 12:30PM 3:45PM 6:30PM 7:45PM 6-Mar 5:01AM 6:16AM 12:31PM 3:46PM 6:31PM''
           ''03'' = Inr ps \<and>
         map date ps = [''03-05'', ''03-06'']) \<and>
   map (\<lambda>x. (fst x, fst (snd x)))
     (scan pattern 0
        ''Mar-5 5:00AM 6:15AM 12:30PM 3:45PM 6:30PM 7:45PM 6-Mar 5:01AM 6:16AM 12:31PM 3:46PM 6:31PM'') =
     [(0, 48), (49, 90)] \<and>
   sorted_wrt (\<lambda>x y. fst (snd x) \<le> fst y)
     (scan pattern 0
        ''Mar-5 5:00AM 6:15AM 12:30PM 3:45PM 6:30PM 7:45PM 6-Mar 5:01AM 6:16AM 12:31PM 3:46PM 6:31PM'')"
proof -
  let ?ct = "(\<lambda>s. Inr (strip s)) :: time_cleaner"
  let ?pd = "(\<lambda>d m. Inr (Some (m @ ''-0'' @ d))) :: date_parser"
  let ?r2 = "[Some ''2'', Some ''5:01 AM'', Some ''6:16 AM'', Some ''12:31 PM'', Some ''3:46 PM'',
       Some ''6:31 PM'', Some ''7:46 PM'']"
  let ?bad = "[Some ''Total'', None, None, None, None, None, None]"
  let ?r1 = "[Some ''1'', Some ''5:00 AM'', Some ''6:15 AM'', Some ''12:30 PM'', Some ''3:45 PM'',
       Some ''6:30 PM'', Some ''7:45 PM'']"
  let ?t = "[[Some ''DATE'', Some ''FAJR'', Some ''SUNRISE'', Some ''DHUHR'', Some ''ASR'',
       Some ''MAGHRIB'', Some ''ISHA''], ?r2, ?bad, ?r1]"
  let ?text = "''Mar-5 5:00AM 6:15AM 12:30PM 3:45PM 6:30PM 7:45PM 6-Mar 5:01AM 6:16AM 12:31PM 3:46PM 6:31PM''"
  have h: "find_header_row ?t = Some 0" by code_simp
  note inst = order_preservation[of ?t 0 ?ct ?pd "''03''" ?text]
  from inst h have "parse_table_rows ?ct ?pd ?t ''03'' =
        map (\<lambda>r. the (parse_single_row ?ct ?pd r ''03''))
          (filter (\<lambda>r. parse_single_row ?ct ?pd r ''03'' \<noteq> None) (drop (Suc 0) ?t))"
    by blast
  also have "drop (Suc 0) ?t = [?r2, ?bad, ?r1]" by simp
  finally have tab: "parse_table_rows ?ct ?pd ?t ''03'' =
        map (\<lambda>r. the (parse_single_row ?ct ?pd r ''03''))
          (filter (\<lambda>r. parse_single_row ?ct ?pd r ''03'' \<noteq> None) [?r2, ?bad, ?r1])" .
  have ev: "map date (map (\<lambda>r. the (parse_single_row ?ct ?pd r ''03''))
          (filter (\<lambda>r. parse_single_row ?ct ?pd r ''03'' \<noteq> None) [?r2, ?bad, ?r1])) =
          [''03-02'', ''03-01'']"
    by code_simp
  have a: "map date (parse_table_rows ?ct ?pd ?t ''03'') = [''03-02'', ''03-01'']"
    unfolding tab by (rule ev)
  from inst obtain ps where ps: "extract_from_text_pattern ?text ''03'' = Inr ps"
    and srt: "sorted_wrt (\<lambda>x y. fst (snd x) \<le> fst y) (scan pattern 0 ?text)" by blast
  have ev2: "extract_from_text_pattern ?text ''03'' =
     Inr [\<lparr>date = ''03-05'', fajr = ''5:00AM'', sunrise = ''6:15AM'', dhuhr = ''12:30PM'',
           asr = ''3:45PM'', maghrib = ''6:30PM'', isha = ''7:45PM''\<rparr>,
          \<lparr>date = ''03-06'', fajr = ''5:01AM'', sunrise = ''6:16AM'', dhuhr = ''12:31PM'',
           asr = ''3:46PM'', maghrib = ''6:31PM'', isha = []\<rparr>]"
    by code_simp
  from ps ev2 have b: "map date ps = [''03-05'', ''03-06'']" by auto
  have c: "map (\<lambda>x. (fst x, fst (snd x))) (scan pattern 0 ?text) = [(0, 48), (49, 90)]"
    by code_simp
  have d: "\<exists>ps. extract_from_text_pattern ?text ''03'' = Inr ps \<and>
                map date ps = [''03-05'', ''03-06'']"
    by (rule exI[of _ ps]) (rule conjI[OF ps b])
  show ?thesis by (rule conjI[OF h conjI[OF a conjI[OF d conjI[OF c srt]]]])
qed

end
